theory Spec2Isabelle
  imports Main "HOL-Library.Word"
begin

unbundle bit_operations_syntax

section \<open>The RouterOS API client (package routeros_api)\<close>

text \<open>
  A shallow embedding of the client: the length codec (\<open>write_length\<close>, \<open>read_length\<close>),
  the word stream (\<open>write_word\<close>, \<open>read_word\<close>), the sentence codec (\<open>write_sentence\<close>,
  \<open>read_sentence\<close>, \<open>parse_sentence\<close>), the command session (\<open>RunCommand\<close>) and the
  login handshake (\<open>Connect\<close>).

  Go's \<open>byte\<close> is an \<open>8 word\<close>, \<open>int64\<close> a \<open>64 word\<close> read as two's complement (so \<open><\<close> on
  it is \<open><s\<close> and \<open>>>\<close> is \<open>signed_drop_bit\<close>). A Go \<open>string\<close> is a sequence of bytes and
  is modelled as a HOL \<open>string\<close>, whose characters are bytes; \<open>[]byte(s)\<close> and
  \<open>string(data)\<close> are the two conversions below.
\<close>

type_synonym byte = "8 word"
type_synonym int64 = "64 word"

definition bytes_of :: "string \<Rightarrow> byte list" where
  "bytes_of s = map of_char s"

definition string_of :: "byte list \<Rightarrow> string" where
  "string_of bs = map (\<lambda>b. char_of (unat b)) bs"

subsection \<open>The connection (net.Conn)\<close>

text \<open>
  The environment of the client. \<open>rd\<close> holds the bytes the peer will still deliver, cut
  into the segments in which they become available: one \<open>Read\<close> call takes bytes from
  the first segment only, at most as many as the buffer holds, so a segment shorter than
  the buffer is a short read. With no segment left the peer has closed the stream and
  \<open>Read\<close> returns no byte and an error (\<open>io.EOF\<close>). A \<open>Read\<close> into an empty buffer returns
  at once. \<open>wr\<close> collects the bytes written; while \<open>wr_ok\<close> is false every \<open>Write\<close>
  fails. \<open>io_errors\<close> counts the calls on the connection that returned a non-nil error.
\<close>

record Conn =
  rd :: "byte list list"
  wr :: "byte list"
  wr_ok :: bool
  io_errors :: nat

text \<open>\<open>conn.Read(b)\<close> with \<open>len(b) = k\<close>: the bytes stored into \<open>b\<close>, the error flag, the connection.\<close>

definition conn_Read :: "Conn \<Rightarrow> nat \<Rightarrow> byte list \<times> bool \<times> Conn" where
  "conn_Read c k =
     (if k = 0 then ([], False, c)
      else case rd c of
        [] \<Rightarrow> ([], True, c\<lparr>io_errors := io_errors c + 1\<rparr>)
      | seg # segs \<Rightarrow>
          (take k seg, False,
           c\<lparr>rd := (if drop k seg = [] then segs else drop k seg # segs)\<rparr>))"

text \<open>\<open>conn.Write(b)\<close>: the error flag and the connection.\<close>

definition conn_Write :: "Conn \<Rightarrow> byte list \<Rightarrow> bool \<times> Conn" where
  "conn_Write c bs =
     (if wr_ok c then (False, c\<lparr>wr := wr c @ bs\<rparr>)
      else (True, c\<lparr>io_errors := io_errors c + 1\<rparr>))"

subsection \<open>Length codec\<close>

text \<open>The byte slice \<open>ba\<close> that the \<open>switch\<close> of \<open>write_length\<close> builds.\<close>

definition write_length_ba :: "int64 \<Rightarrow> byte list" where
  "write_length_ba len =
     (if len <s 0x80 then [ucast len]
      else if len <s 0x4000 then
        (let l = len OR 0x8000 in
           [ucast (signed_drop_bit 8 l) AND 0xFF, ucast l AND 0xFF])
      else if len <s 0x200000 then
        (let l = len OR 0xC00000 in
           [ucast (signed_drop_bit 16 l) AND 0xFF, ucast (signed_drop_bit 8 l) AND 0xFF,
            ucast l AND 0xFF])
      else if len <s 0x10000000 then
        (let l = len OR 0xE0000000 in
           [ucast (signed_drop_bit 24 l) AND 0xFF, ucast (signed_drop_bit 16 l) AND 0xFF,
            ucast (signed_drop_bit 8 l) AND 0xFF, ucast l AND 0xFF])
      else
        [0xF0, ucast (signed_drop_bit 24 len) AND 0xFF,
         ucast (signed_drop_bit 16 len) AND 0xFF,
         ucast (signed_drop_bit 8 len) AND 0xFF, ucast len AND 0xFF])"

text \<open>\<open>write_length\<close> writes the slice and drops the result of \<open>Write\<close>.\<close>

definition write_length :: "Conn \<Rightarrow> int64 \<Rightarrow> Conn" where
  "write_length c len = snd (conn_Write c (write_length_ba len))"

text \<open>
  \<open>read_byte\<close> reads into a fresh one-byte buffer and drops both results of \<open>Read\<close>: when
  nothing was delivered the buffer still holds its initial zero.
\<close>

definition read_byte :: "Conn \<Rightarrow> int64 \<times> Conn" where
  "read_byte c =
     (case conn_Read c 1 of (bs, err, c') \<Rightarrow>
        (ucast (hd (bs @ [0 :: byte])) :: int64, c'))"

definition read_length :: "Conn \<Rightarrow> int64 \<times> Conn" where
  "read_length c =
     (case read_byte c of (len, c1) \<Rightarrow>
        if len AND 0x80 = 0x00 then (len, c1)
        else if len AND 0xC0 = 0x80 then
          (case read_byte c1 of (b1, c2) \<Rightarrow>
             (push_bit 8 (len AND NOT 0xC0) + b1, c2))
        else if len AND 0xE0 = 0xC0 then
          (case read_byte c1 of (b1, c2) \<Rightarrow>
           case read_byte c2 of (b2, c3) \<Rightarrow>
             (push_bit 8 (push_bit 8 (len AND NOT 0xE0) + b1) + b2, c3))
        else if len AND 0xF0 = 0xE0 then
          (case read_byte c1 of (b1, c2) \<Rightarrow>
           case read_byte c2 of (b2, c3) \<Rightarrow>
           case read_byte c3 of (b3, c4) \<Rightarrow>
             (push_bit 8 (push_bit 8 (push_bit 8 (len AND NOT 0xF0) + b1) + b2) + b3, c4))
        else if len AND 0xF8 = 0xF0 then
          (case read_byte c1 of (b0, c2) \<Rightarrow>
           case read_byte c2 of (b1, c3) \<Rightarrow>
           case read_byte c3 of (b2, c4) \<Rightarrow>
           case read_byte c4 of (b3, c5) \<Rightarrow>
             (push_bit 8 (push_bit 8 (push_bit 8 b0 + b1) + b2) + b3, c5))
        else (len, c1))"

subsection \<open>Word stream\<close>

text \<open>\<open>write_word\<close>: the encoded length, then the bytes of the word; both results dropped.\<close>

definition write_word :: "Conn \<Rightarrow> string \<Rightarrow> Conn" where
  "write_word c word =
     (let c1 = write_length c (of_nat (length word))
      in snd (conn_Write c1 (bytes_of word)))"

text \<open>
  \<open>read_word\<close> makes a zeroed buffer of the decoded length and calls \<open>Read\<close> once; the
  count and the error are dropped, so the bytes not delivered stay zero.
\<close>

definition read_word :: "Conn \<Rightarrow> string \<times> Conn" where
  "read_word c =
     (case read_length c of (len, c1) \<Rightarrow>
      case conn_Read c1 (unat len) of (bs, err, c2) \<Rightarrow>
        (string_of (bs @ replicate (unat len - length bs) 0), c2))"

text \<open>
  Every \<open>Read\<close> into a non-empty buffer uses up part of what is pending, unless the stream
  is at its end; \<open>pending\<close> measures what is left.
\<close>

definition pending :: "Conn \<Rightarrow> nat" where
  "pending c = sum_list (map length (rd c)) + length (rd c)"

lemma conn_Read_pending:
  assumes "conn_Read c k = (bs, err, c')"
  shows "pending c' \<le> pending c" and "bs \<noteq> [] \<Longrightarrow> pending c' < pending c"
  using assms
  by (auto simp add: conn_Read_def pending_def split: if_splits list.splits)

lemma read_byte_pending:
  assumes "read_byte c = (b, c')"
  shows "pending c' \<le> pending c" and "b \<noteq> 0 \<Longrightarrow> pending c' < pending c"
proof -
  obtain bs err where r: "conn_Read c 1 = (bs, err, c')" and b: "b = ucast (hd (bs @ [0 :: byte]))"
    using assms by (auto simp add: read_byte_def split: prod.splits)
  show "pending c' \<le> pending c" using conn_Read_pending(1) [OF r] .
  show "pending c' < pending c" if "b \<noteq> 0"
  proof -
    have "bs \<noteq> []" using that b by auto
    then show ?thesis using conn_Read_pending(2) [OF r] by simp
  qed
qed

lemma read_length_tail:
  assumes "read_length c = (len, c')" and "read_byte c = (l0, c1)"
  shows "pending c' \<le> pending c1" and "l0 AND 0x80 = 0 \<Longrightarrow> len = l0"
  using assms unfolding read_length_def
  by (auto split: prod.splits if_splits dest!: read_byte_pending(1))

lemma read_length_pending:
  assumes "read_length c = (len, c')"
  shows "pending c' \<le> pending c" and "len \<noteq> 0 \<Longrightarrow> pending c' < pending c"
proof -
  obtain l0 c1 where rb: "read_byte c = (l0, c1)" by (cases "read_byte c")
  note t = read_length_tail [OF assms rb]
  show "pending c' \<le> pending c"
    using t(1) read_byte_pending(1) [OF rb] by simp
  show "pending c' < pending c" if "len \<noteq> 0"
  proof -
    have "l0 \<noteq> 0" using t(2) that by auto
    then show ?thesis using t(1) read_byte_pending(2) [OF rb] by simp
  qed
qed

lemma read_word_pending:
  assumes "read_word c = (word, c')"
  shows "pending c' \<le> pending c" and "word \<noteq> [] \<Longrightarrow> pending c' < pending c"
proof -
  obtain len c1 where rl: "read_length c = (len, c1)" by (cases "read_length c")
  obtain bs err where rd: "conn_Read c1 (unat len) = (bs, err, c')"
    and w: "word = string_of (bs @ replicate (unat len - length bs) 0)"
    using assms rl by (auto simp add: read_word_def split: prod.splits)
  show "pending c' \<le> pending c"
    using read_length_pending(1) [OF rl] conn_Read_pending(1) [OF rd] by simp
  show "pending c' < pending c" if "word \<noteq> []"
  proof -
    have "len \<noteq> 0"
    proof
      assume "len = 0"
      then have "bs = []" using rd by (simp add: conn_Read_def)
      then show False using w that \<open>len = 0\<close> by (simp add: string_of_def)
    qed
    then show ?thesis
      using read_length_pending(2) [OF rl] conn_Read_pending(1) [OF rd] by simp
  qed
qed

subsection \<open>Sentence codec\<close>

text \<open>
  A sentence is a command and a Go map of attributes. Indexing a Go map with a key it
  does not hold yields the empty string (\<open>attr\<close>). \<open>no_data\<close> is the zero value
  \<open>Sentence{}\<close>.
\<close>

record Sentence =
  Command :: string
  Attributes :: "string \<rightharpoonup> string"

definition attr :: "(string \<rightharpoonup> string) \<Rightarrow> string \<Rightarrow> string" where
  "attr m k = (case m k of None \<Rightarrow> [] | Some v \<Rightarrow> v)"

definition no_data :: Sentence where
  "no_data = \<lparr>Command = [], Attributes = Map.empty\<rparr>"

datatype panic = IndexOutOfRange | NilDereference

text \<open>
  \<open>range sentence.Attributes\<close> visits every key once, in an order the language leaves
  open. The order is the parameter \<open>ks\<close> of \<open>write_sentence\<close>; \<open>range_order\<close> says that a
  key list is one of the orders the loop can take.
\<close>

definition range_order :: "(string \<rightharpoonup> string) \<Rightarrow> string list \<Rightarrow> bool" where
  "range_order m ks = (distinct ks \<and> set ks = dom m)"

definition write_sentence :: "Conn \<Rightarrow> string list \<Rightarrow> Sentence \<Rightarrow> Conn" where
  "write_sentence c ks sentence =
     (let c1 = write_word c (Command sentence);
          c2 = foldl (\<lambda>c' attribute.
                 write_word c' (attribute @ ''='' @ attr (Attributes sentence) attribute)) c1 ks
      in write_word c2 [])"

text \<open>
  The pattern \<open>^(=.*)(?:=(.*))$\<close> under Go's leftmost-first matching. \<open>.\<close> matches any
  character but a newline, so \<open>.*\<close> matches a whole string exactly when it holds no
  newline (\<open>dot_star\<close>). After the leading \<open>=\<close>, the greedy \<open>.*\<close> of the first group tries to
  take as many characters as it can and gives them back one at a time (\<open>backtrack\<close>)
  until the rest is \<open>=\<close> followed by a string the second \<open>.*\<close> matches up to the end
  (\<open>split_at\<close>). The result is the slice of submatches: the whole match and the two
  groups, or the empty (nil) slice when the word does not match.
\<close>

definition dot_star :: "string \<Rightarrow> bool" where
  "dot_star s = (CHR 0x0A \<notin> set s)"

definition split_at :: "nat \<Rightarrow> string \<Rightarrow> string list" where
  "split_at k rest =
     (if dot_star (take k rest) then
        (case drop k rest of
           [] \<Rightarrow> []
         | e # v \<Rightarrow>
             if e = CHR ''='' \<and> dot_star v
             then [CHR ''='' # rest, CHR ''='' # take k rest, v] else [])
      else [])"

primrec backtrack :: "nat \<Rightarrow> string \<Rightarrow> string list" where
  "backtrack 0 rest = split_at 0 rest"
| "backtrack (Suc k) rest =
     (case split_at (Suc k) rest of [] \<Rightarrow> backtrack k rest | m # ms \<Rightarrow> m # ms)"

definition word_regex_FindStringSubmatch :: "string \<Rightarrow> string list" where
  "word_regex_FindStringSubmatch word =
     (case word of
        [] \<Rightarrow> []
      | e # rest \<Rightarrow> if e = CHR ''='' then backtrack (length rest) rest else [])"

text \<open>
  The loop of \<open>parse_sentence\<close> over \<open>words[1:]\<close>: \<open>matches[1]\<close> and \<open>matches[2]\<close> panic
  when the slice of submatches is too short.
\<close>

fun parse_attributes :: "string list \<Rightarrow> (string \<rightharpoonup> string) \<Rightarrow> panic + (string \<rightharpoonup> string)" where
  "parse_attributes [] attributes = Inr attributes"
| "parse_attributes (word # ws) attributes =
     (let matches = word_regex_FindStringSubmatch word
      in if length matches \<le> 2 then Inl IndexOutOfRange
         else parse_attributes ws (attributes(matches ! 1 \<mapsto> matches ! 2)))"

definition parse_sentence :: "string list \<Rightarrow> panic + Sentence" where
  "parse_sentence words =
     (case words of
        [] \<Rightarrow> Inr no_data
      | w # ws \<Rightarrow>
          (case parse_attributes ws Map.empty of
             Inl p \<Rightarrow> Inl p
           | Inr attributes \<Rightarrow> Inr \<lparr>Command = w, Attributes = attributes\<rparr>))"

text \<open>
  \<open>read_sentence\<close> collects words up to the first empty one. Every non-empty word uses
  up at least its length byte, so the loop ends on every connection state.
\<close>

function read_sentence_loop :: "Conn \<Rightarrow> string list \<Rightarrow> panic + (Sentence \<times> Conn)" where
  "read_sentence_loop c words =
     (case read_word c of (word, c') \<Rightarrow>
        if length word = 0 then
          (case parse_sentence words of Inl p \<Rightarrow> Inl p | Inr sentence \<Rightarrow> Inr (sentence, c'))
        else read_sentence_loop c' (words @ [word]))"
  by pat_completeness auto
termination
  by (relation "measure (\<lambda>(c, words). pending c)")
    (auto intro: read_word_pending(2) [OF sym])

declare read_sentence_loop.simps [simp del]

definition read_sentence :: "Conn \<Rightarrow> panic + (Sentence \<times> Conn)" where
  "read_sentence c = read_sentence_loop c []"

subsection \<open>Command session\<close>

record Client =
  Host :: string
  Port :: int
  User :: string
  Password :: string
  conn :: "Conn option"

text \<open>
  The reply loop of \<open>RunCommand\<close>. It has no exit but the \<open>!done\<close> sentence, so it need
  not return: the result \<open>None\<close> is a run that never ends. \<open>Some (Inl p)\<close> is a panic;
  \<open>Some (Inr (reply, err, c))\<close> is a return, where \<open>err = None\<close> is Go's nil error.
\<close>

definition trap_error :: "Sentence \<Rightarrow> string option \<Rightarrow> string option" where
  "trap_error sentence err =
     (if Command sentence = ''!trap'' then Some (attr (Attributes sentence) ''=message'')
      else err)"

partial_function (option) RunCommand_loop ::
    "Conn \<Rightarrow> Sentence list \<Rightarrow> string option
       \<Rightarrow> (panic + (Sentence list \<times> string option \<times> Conn)) option" where
  "RunCommand_loop c reply err =
     (case read_sentence c of
        Inl p \<Rightarrow> Some (Inl p)
      | Inr (sentence, c') \<Rightarrow>
          if length (Command sentence) = 0 then RunCommand_loop c' reply err
          else if Command sentence = ''!done''
            then Some (Inr (reply @ [sentence], trap_error sentence err, c'))
            else RunCommand_loop c' (reply @ [sentence]) (trap_error sentence err))"

definition RunCommand ::
    "string list \<Rightarrow> Client \<Rightarrow> Sentence
       \<Rightarrow> (panic + (Sentence list \<times> string option \<times> Client)) option" where
  "RunCommand ks client command =
     (case conn client of
        None \<Rightarrow> Some (Inl NilDereference)
      | Some c \<Rightarrow>
          (case RunCommand_loop (write_sentence c ks command) [] None of
             None \<Rightarrow> None
           | Some (Inl p) \<Rightarrow> Some (Inl p)
           | Some (Inr (reply, err, c')) \<Rightarrow> Some (Inr (reply, err, client\<lparr>conn := Some c'\<rparr>))))"

subsection \<open>Login handshake\<close>




text \<open>\<open>fmt.Sprintf("00%x", bs)\<close>: two lowercase hexadecimal digits for every byte.\<close>

definition hex_digit :: "nat \<Rightarrow> char" where
  "hex_digit d = ''0123456789abcdef'' ! d"

definition hex_lower :: "byte list \<Rightarrow> string" where
  "hex_lower bs = concat (map (\<lambda>b. [hex_digit (unat b div 16), hex_digit (unat b mod 16)]) bs)"




section \<open>Vocabulary of the statements\<close>

text \<open>
  The bytes of a word and of a sentence on the wire, as \<open>write_word\<close> and \<open>write_sentence\<close>
  send them: the encoded length and the bytes of each word, and the empty word last.
\<close>

definition wire_word :: "string \<Rightarrow> byte list" where
  "wire_word word = write_length_ba (of_nat (length word)) @ bytes_of word"

definition wire_sentence :: "string list \<Rightarrow> byte list" where
  "wire_sentence words = concat (map wire_word words) @ wire_word []"

text \<open>The words the pattern of \<open>parse_sentence\<close> matches: \<open>=\<close>, then a text with a further \<open>=\<close> and no newline.\<close>

definition attribute_shape :: "string \<Rightarrow> bool" where
  "attribute_shape word =
     (case word of
        [] \<Rightarrow> False
      | e # rest \<Rightarrow> e = CHR ''='' \<and> CHR ''='' \<in> set rest \<and> CHR 0x0A \<notin> set rest)"

text \<open>
  The error the reply loop holds after a list of sentences, and the sentences that the
  next \<open>k\<close> calls of \<open>read_sentence\<close> return.
\<close>

fun reply_error :: "Sentence list \<Rightarrow> string option \<Rightarrow> string option" where
  "reply_error [] err = err"
| "reply_error (s # ss) err = reply_error ss (trap_error s err)"

fun read_sentences :: "nat \<Rightarrow> Conn \<Rightarrow> panic + (Sentence list \<times> Conn)" where
  "read_sentences 0 c = Inr ([], c)"
| "read_sentences (Suc k) c =
     (case read_sentence c of
        Inl p \<Rightarrow> Inl p
      | Inr (s, c1) \<Rightarrow>
          (case read_sentences k c1 of
             Inl p \<Rightarrow> Inl p
           | Inr (ss, c2) \<Rightarrow> Inr (s # ss, c2)))"

text \<open>What holds of the reply and the error when the reply loop returns.\<close>

definition loop_post :: "Sentence list \<Rightarrow> string option \<Rightarrow> Sentence list \<Rightarrow> string option \<Rightarrow> bool" where
  "loop_post reply err r e =
     (\<exists>new. r = reply @ new \<and> new \<noteq> [] \<and> Command (last new) = ''!done''
        \<and> (\<forall>s\<in>set new. Command s \<noteq> []) \<and> (\<forall>s\<in>set (butlast new). Command s \<noteq> ''!done'')
        \<and> e = reply_error new err)"

text \<open>
  Connections and clients for concrete runs: a peer that has sent the given segments and
  then closed the stream, and the two queries of the updater program
  (\<open>get_opvenvpn_config\<close>, \<open>set_openvpn_ip\<close>).
\<close>

definition stub_conn :: "byte list list \<Rightarrow> Conn" where
  "stub_conn segs = \<lparr>rd = segs, wr = [], wr_ok = True, io_errors = 0\<rparr>"

definition stub_client :: "byte list list \<Rightarrow> Client" where
  "stub_client segs =
     \<lparr>Host = ''192.168.88.1'', Port = 8728, User = ''admin'', Password = [],
      conn = Some (stub_conn segs)\<rparr>"

definition print_query :: Sentence where
  "print_query = \<lparr>Command = ''/interface/ovpn-client/print'', Attributes = Map.empty\<rparr>"

definition set_openvpn_ip_query :: "string \<Rightarrow> string \<Rightarrow> Sentence" where
  "set_openvpn_ip_query iface_id ip =
     \<lparr>Command = ''/interface/ovpn-client/set'',
      Attributes = [''=.id'' \<mapsto> iface_id, ''=connect-to'' \<mapsto> ip]\<rparr>"

text \<open>Reply sentences of the concrete runs.\<close>

definition done_sentence :: Sentence where
  "done_sentence = \<lparr>Command = ''!done'', Attributes = Map.empty\<rparr>"




section \<open>Length codec: round trip and width\<close>

text \<open>Facts about the bits of a length below a power of two and of the marker constants.\<close>

lemma upper_bits_clear:
  fixes w :: int64
  assumes "w < 2 ^ k" and "k \<le> j"
  shows "\<not> bit w j"
proof -
  have "w AND mask k = w" using assms(1) by (rule less_mask_eq)
  then have "bit w j = bit (w AND mask k) j" by simp
  then show ?thesis using assms(2) by (simp add: bit_simps)
qed

lemma sint_small:
  fixes n :: int64
  assumes "n \<le> 0xFFFFFFFF"
  shows "sint n = uint n"
proof -
  have hi: "uint n < 2 ^ 63" using assms by (simp add: word_le_def)
  have "- (2 ^ 63) \<le> (0 :: int)" by simp
  also have "0 \<le> uint n" by simp
  finally have lo: "- (2 ^ 63) \<le> uint n" .
  have "signed_take_bit 63 (uint n) = uint n"
    using lo hi by (rule signed_take_bit_int_eq_self)
  then show ?thesis
    by (simp add: sint_uint)
qed

lemma sless_small:
  fixes n c :: int64
  assumes "n \<le> 0xFFFFFFFF" and "c \<le> 0xFFFFFFFF"
  shows "(n <s c) = (n < c)"
  by (simp add: word_sless_alt sint_small assms word_less_def)

lemma byte_and_ff: "(b :: byte) AND 0xFF = b"
proof -
  have "(0xFF :: byte) = - 1" by simp
  then show ?thesis by (simp only: and.right_neutral)
qed

lemma sdrop_small:
  fixes n :: int64
  assumes "\<not> bit n 63"
  shows "signed_drop_bit k n = drop_bit k n"
  apply (rule bit_word_eqI)
  using assms
  apply (auto simp add: bit_simps dest: bit_imp_le_length)
  done


lemma bit_pow2_or:
  fixes a :: int
  shows "bit (2 ^ k OR a) n = (n = k \<or> bit a n)"
  by (auto simp add: bit_simps)

lemma bit_pow2:
  shows "bit (2 ^ k :: int) n = (n = k)"
  by (auto simp add: bit_simps)

lemma bit80: "bit (0x80 :: int) n = (n = 7)"
  using bit_pow2 [of 7 n] by simp
lemma bitC0: "bit (0xC0 :: int) n = (n = 7 \<or> n = 6)"
  using bit_pow2_or [of 7 "2 ^ 6" n] bit_pow2 [of 6 n] by simp
lemma bitE0: "bit (0xE0 :: int) n = (n = 7 \<or> n = 6 \<or> n = 5)"
  using bit_pow2_or [of 5 "0xC0" n] bitC0 [of n] by auto
lemma bitF0: "bit (0xF0 :: int) n = (n = 7 \<or> n = 6 \<or> n = 5 \<or> n = 4)"
  using bit_pow2_or [of 4 "0xE0" n] bitE0 [of n] by auto
lemma bitF8: "bit (0xF8 :: int) n = (n = 7 \<or> n = 6 \<or> n = 5 \<or> n = 4 \<or> n = 3)"
  using bit_pow2_or [of 3 "0xF0" n] bitF0 [of n] by auto
lemma bit8000: "bit (0x8000 :: int) n = (n = 15)"
  using bit_pow2 [of 15 n] by simp
lemma bitC00000: "bit (0xC00000 :: int) n = (n = 23 \<or> n = 22)"
  using bit_pow2_or [of 23 "2 ^ 22" n] bit_pow2 [of 22 n] by simp
lemma bitE0000000: "bit (0xE0000000 :: int) n = (n = 31 \<or> n = 30 \<or> n = 29)"
  using bit_pow2_or [of 29 "0xC0000000" n] bit_pow2_or [of 31 "2 ^ 30" n] bit_pow2 [of 30 n] by auto

lemmas const_bits = bit80 bitC0 bitE0 bitF0 bitF8 bit8000 bitC00000 bitE0000000

lemma and80: "((x :: int64) AND 0x80 = 0) = (\<not> bit x 7)"
proof
  assume e: "x AND 0x80 = 0"
  have b: "bit (x AND 0x80) k = bit (0 :: int64) k" for k
    using e by simp
  show "\<not> bit x 7"
    using b [of 7] by (simp add: bit_simps const_bits)
next
  assume "\<not> bit x 7"
  then show "x AND 0x80 = 0"
    by (intro bit_word_eqI) (auto simp add: bit_simps const_bits)
qed

lemma andC0: "((x :: int64) AND 0xC0 = 0x80) = (bit x 7 \<and> \<not> bit x 6)"
proof
  assume e: "x AND 0xC0 = 0x80"
  have b: "bit (x AND 0xC0) k = bit (0x80 :: int64) k" for k
    using e by simp
  show "bit x 7 \<and> \<not> bit x 6"
    using b [of 7] b [of 6] by (simp add: bit_simps const_bits)
next
  assume "bit x 7 \<and> \<not> bit x 6"
  then show "x AND 0xC0 = 0x80"
    by (intro bit_word_eqI) (auto simp add: bit_simps const_bits)
qed

lemma andE0: "((x :: int64) AND 0xE0 = 0xC0) = (bit x 7 \<and> bit x 6 \<and> \<not> bit x 5)"
proof
  assume e: "x AND 0xE0 = 0xC0"
  have b: "bit (x AND 0xE0) k = bit (0xC0 :: int64) k" for k
    using e by simp
  show "bit x 7 \<and> bit x 6 \<and> \<not> bit x 5"
    using b [of 7] b [of 6] b [of 5] by (simp add: bit_simps const_bits)
next
  assume "bit x 7 \<and> bit x 6 \<and> \<not> bit x 5"
  then show "x AND 0xE0 = 0xC0"
    by (intro bit_word_eqI) (auto simp add: bit_simps const_bits)
qed

lemma andF0: "((x :: int64) AND 0xF0 = 0xE0) = (bit x 7 \<and> bit x 6 \<and> bit x 5 \<and> \<not> bit x 4)"
proof
  assume e: "x AND 0xF0 = 0xE0"
  have b: "bit (x AND 0xF0) k = bit (0xE0 :: int64) k" for k
    using e by simp
  show "bit x 7 \<and> bit x 6 \<and> bit x 5 \<and> \<not> bit x 4"
    using b [of 7] b [of 6] b [of 5] b [of 4] by (simp add: bit_simps const_bits)
next
  assume "bit x 7 \<and> bit x 6 \<and> bit x 5 \<and> \<not> bit x 4"
  then show "x AND 0xF0 = 0xE0"
    by (intro bit_word_eqI) (auto simp add: bit_simps const_bits)
qed

lemma andF8: "((x :: int64) AND 0xF8 = 0xF0) = (bit x 7 \<and> bit x 6 \<and> bit x 5 \<and> bit x 4 \<and> \<not> bit x 3)"
proof
  assume e: "x AND 0xF8 = 0xF0"
  have b: "bit (x AND 0xF8) k = bit (0xF0 :: int64) k" for k
    using e by simp
  show "bit x 7 \<and> bit x 6 \<and> bit x 5 \<and> bit x 4 \<and> \<not> bit x 3"
    using b [of 7] b [of 6] b [of 5] b [of 4] b [of 3] by (simp add: bit_simps const_bits)
next
  assume "bit x 7 \<and> bit x 6 \<and> bit x 5 \<and> bit x 4 \<and> \<not> bit x 3"
  then show "x AND 0xF8 = 0xF0"
    by (intro bit_word_eqI) (auto simp add: bit_simps const_bits)
qed

lemma shift_add_byte:
  fixes x :: int64 and b :: byte
  shows "push_bit 8 x + ucast b = push_bit 8 x OR ucast b"
  by (rule disjunctive_add) (auto simp add: bit_simps dest: bit_imp_le_length)

lemma le_32_bits:
  fixes n :: int64
  assumes "n \<le> 0xFFFFFFFF" and "32 \<le> j"
  shows "\<not> bit n j"
proof -
  have "n < 2 ^ 32" using assms(1) by (simp add: word_le_def word_less_def)
  then show ?thesis using assms(2) by (rule upper_bits_clear)
qed

text \<open>The bytes of the encoder, band by band, without the marker arithmetic.\<close>


lemma sdrop_pos:
  fixes n :: int64
  assumes "n \<le> 0xFFFFFFFF"
  shows "signed_drop_bit k n = drop_bit k n"
  using le_32_bits [OF assms, of 63] by (simp add: sdrop_small)

lemma band2_bytes:
  fixes n :: int64
  assumes "n < 0x4000"
  shows "(ucast (signed_drop_bit 8 (n OR 0x8000)) :: byte) = ucast (drop_bit 8 n) OR 0x80"
    and "(ucast (n OR 0x8000) :: byte) = ucast n"
proof -
  have *: "\<And>j. 14 \<le> j \<Longrightarrow> \<not> bit n j"
    using assms upper_bits_clear [of n 14] by simp
  show "(ucast (signed_drop_bit 8 (n OR 0x8000)) :: byte) = ucast (drop_bit 8 n) OR 0x80"
    by (rule bit_word_eqI) (auto simp add: bit_simps const_bits * )
  show "(ucast (n OR 0x8000) :: byte) = ucast n"
    by (rule bit_word_eqI) (auto simp add: bit_simps const_bits * )
qed

lemma band3_bytes:
  fixes n :: int64
  assumes "n < 0x200000"
  shows "(ucast (signed_drop_bit 16 (n OR 0xC00000)) :: byte) = ucast (drop_bit 16 n) OR 0xC0"
    and "(ucast (signed_drop_bit 8 (n OR 0xC00000)) :: byte) = ucast (drop_bit 8 n)"
    and "(ucast (n OR 0xC00000) :: byte) = ucast n"
proof -
  have *: "\<And>j. 21 \<le> j \<Longrightarrow> \<not> bit n j"
    using assms upper_bits_clear [of n 21] by simp
  show "(ucast (signed_drop_bit 16 (n OR 0xC00000)) :: byte) = ucast (drop_bit 16 n) OR 0xC0"
    by (rule bit_word_eqI) (auto simp add: bit_simps const_bits * )
  show "(ucast (signed_drop_bit 8 (n OR 0xC00000)) :: byte) = ucast (drop_bit 8 n)"
    by (rule bit_word_eqI) (auto simp add: bit_simps const_bits * )
  show "(ucast (n OR 0xC00000) :: byte) = ucast n"
    by (rule bit_word_eqI) (auto simp add: bit_simps const_bits * )
qed

lemma band4_bytes:
  fixes n :: int64
  assumes "n < 0x10000000"
  shows "(ucast (signed_drop_bit 24 (n OR 0xE0000000)) :: byte) = ucast (drop_bit 24 n) OR 0xE0"
    and "(ucast (signed_drop_bit 16 (n OR 0xE0000000)) :: byte) = ucast (drop_bit 16 n)"
    and "(ucast (signed_drop_bit 8 (n OR 0xE0000000)) :: byte) = ucast (drop_bit 8 n)"
    and "(ucast (n OR 0xE0000000) :: byte) = ucast n"
proof -
  have *: "\<And>j. 28 \<le> j \<Longrightarrow> \<not> bit n j"
    using assms upper_bits_clear [of n 28] by simp
  show "(ucast (signed_drop_bit 24 (n OR 0xE0000000)) :: byte) = ucast (drop_bit 24 n) OR 0xE0"
    by (rule bit_word_eqI) (auto simp add: bit_simps const_bits * )
  show "(ucast (signed_drop_bit 16 (n OR 0xE0000000)) :: byte) = ucast (drop_bit 16 n)"
    by (rule bit_word_eqI) (auto simp add: bit_simps const_bits * )
  show "(ucast (signed_drop_bit 8 (n OR 0xE0000000)) :: byte) = ucast (drop_bit 8 n)"
    by (rule bit_word_eqI) (auto simp add: bit_simps const_bits * )
  show "(ucast (n OR 0xE0000000) :: byte) = ucast n"
    by (rule bit_word_eqI) (auto simp add: bit_simps const_bits * )
qed

text \<open>The marker bits of the first byte, read back as an \<open>int64\<close>.\<close>

lemma head_bits2:
  fixes n :: int64
  assumes "n < 0x4000"
  shows "bit (ucast (ucast (drop_bit 8 n) OR 0x80 :: byte) :: int64) 7"
    and "\<not> bit (ucast (ucast (drop_bit 8 n) OR 0x80 :: byte) :: int64) 6"
  using assms upper_bits_clear [of n 14 14] by (simp_all add: bit_simps const_bits)

lemma head_bits3:
  fixes n :: int64
  assumes "n < 0x200000"
  shows "bit (ucast (ucast (drop_bit 16 n) OR 0xC0 :: byte) :: int64) 7"
    and "bit (ucast (ucast (drop_bit 16 n) OR 0xC0 :: byte) :: int64) 6"
    and "\<not> bit (ucast (ucast (drop_bit 16 n) OR 0xC0 :: byte) :: int64) 5"
  using assms upper_bits_clear [of n 21 21] by (simp_all add: bit_simps const_bits)

lemma head_bits4:
  fixes n :: int64
  assumes "n < 0x10000000"
  shows "bit (ucast (ucast (drop_bit 24 n) OR 0xE0 :: byte) :: int64) 7"
    and "bit (ucast (ucast (drop_bit 24 n) OR 0xE0 :: byte) :: int64) 6"
    and "bit (ucast (ucast (drop_bit 24 n) OR 0xE0 :: byte) :: int64) 5"
    and "\<not> bit (ucast (ucast (drop_bit 24 n) OR 0xE0 :: byte) :: int64) 4"
  using assms upper_bits_clear [of n 28 28] by (simp_all add: bit_simps const_bits)

lemma head_bits1:
  fixes n :: int64
  assumes "n < 0x80"
  shows "\<not> bit (ucast (ucast n :: byte) :: int64) 7"
  using assms upper_bits_clear [of n 7 7] by (simp_all add: bit_simps const_bits)

text \<open>Assembling the value from the bytes.\<close>

lemma ucast_byte_take_bit:
  fixes x :: int64
  shows "(ucast (ucast x :: byte) :: int64) = take_bit 8 x"
  by (rule bit_word_eqI) (auto simp add: bit_simps)

lemma byte_step:
  fixes n :: int64
  shows "push_bit 8 (drop_bit (k + 8) n) + ucast (ucast (drop_bit k n) :: byte) = drop_bit k n"
  using bits_ident [of 8 "drop_bit k n"]
  by (simp add: ucast_byte_take_bit drop_bit_drop_bit add.commute)

lemma bits_below:
  fixes w :: int64
  assumes "w < 2 ^ k" and "bit w j"
  shows "j < k"
  using upper_bits_clear [OF assms(1), of j] assms(2) by (meson not_le_imp_less)

lemma byte_step0:
  fixes n :: int64
  shows "push_bit 8 (drop_bit 8 n) + ucast (ucast n :: byte) = n"
  using byte_step [of 0 n] by simp

lemma byte_step8:
  fixes n :: int64
  shows "push_bit 8 (drop_bit 16 n) + ucast (ucast (drop_bit 8 n) :: byte) = drop_bit 8 n"
  using byte_step [of 8 n] by simp

lemma byte_step16:
  fixes n :: int64
  shows "push_bit 8 (drop_bit 24 n) + ucast (ucast (drop_bit 16 n) :: byte) = drop_bit 16 n"
  using byte_step [of 16 n] by simp

lemma head_value1:
  fixes n :: int64
  assumes "n < 0x80"
  shows "(ucast (ucast n :: byte) :: int64) = n"
proof -
  have *: "\<And>j. bit n j \<Longrightarrow> j < 7"
    using assms bits_below [of n 7] by simp
  show ?thesis
    by (rule bit_word_eqI) (auto simp add: bit_simps const_bits dest: * )
qed

lemma head_value2:
  fixes n :: int64
  assumes "n < 0x4000"
  shows "ucast (ucast (drop_bit 8 n) OR 0x80 :: byte) AND NOT 0xC0 = drop_bit 8 n"
proof -
  have *: "\<And>j. bit n j \<Longrightarrow> j < 14"
    using assms bits_below [of n 14] by simp
  show ?thesis
    by (rule bit_word_eqI) (auto simp add: bit_simps const_bits dest: * )
qed

lemma head_value3:
  fixes n :: int64
  assumes "n < 0x200000"
  shows "ucast (ucast (drop_bit 16 n) OR 0xC0 :: byte) AND NOT 0xE0 = drop_bit 16 n"
proof -
  have *: "\<And>j. bit n j \<Longrightarrow> j < 21"
    using assms bits_below [of n 21] by simp
  show ?thesis
    by (rule bit_word_eqI) (auto simp add: bit_simps const_bits dest: * )
qed

lemma head_value4:
  fixes n :: int64
  assumes "n < 0x10000000"
  shows "ucast (ucast (drop_bit 24 n) OR 0xE0 :: byte) AND NOT 0xF0 = drop_bit 24 n"
proof -
  have *: "\<And>j. bit n j \<Longrightarrow> j < 28"
    using assms bits_below [of n 28] by simp
  show ?thesis
    by (rule bit_word_eqI) (auto simp add: bit_simps const_bits dest: * )
qed

lemma head_value5:
  fixes n :: int64
  assumes "n \<le> 0xFFFFFFFF"
  shows "(ucast (ucast (drop_bit 24 n) :: byte) :: int64) = drop_bit 24 n"
proof -
  have *: "\<And>j. bit n j \<Longrightarrow> j < 32"
    using assms le_32_bits [of n] by (meson not_le_imp_less)
  show ?thesis
    by (rule bit_word_eqI) (auto simp add: bit_simps const_bits dest: * )
qed


lemma signed_range:
  fixes n :: int64
  assumes "0 <=s n" and "n <=s 0xFFFFFFFF"
  shows "n \<le> 0xFFFFFFFF"
proof -
  have lo: "0 \<le> sint n" and hi: "sint n \<le> 0xFFFFFFFF"
    using assms by (simp_all add: word_sle_eq)
  have "take_bit 64 (sint n) = sint n"
    using lo hi by (intro take_bit_int_eq_self) simp_all
  then have "uint n = sint n"
    using uint_sint [of n] by simp
  then show ?thesis
    using hi by (simp add: word_le_def)
qed


lemma band_order:
  fixes n :: int64
  shows "n < 0x80 \<Longrightarrow> n < 0x4000" and "n < 0x4000 \<Longrightarrow> n < 0x200000"
    and "n < 0x200000 \<Longrightarrow> n < 0x10000000"
  by (erule order.strict_trans, simp)+

lemma write_length_ba_band1:
  fixes n :: int64
  assumes "n \<le> 0xFFFFFFFF" and "n < 0x80"
  shows "write_length_ba n = [ucast n]"
  using assms(2) by (simp add: write_length_ba_def sless_small [OF assms(1)])

lemma write_length_ba_band2:
  fixes n :: int64
  assumes "n \<le> 0xFFFFFFFF" and "\<not> n < 0x80" and "n < 0x4000"
  shows "write_length_ba n = [ucast (drop_bit 8 n) OR 0x80, ucast n]"
  using assms(2,3)
  by (simp add: write_length_ba_def sless_small [OF assms(1)] byte_and_ff band2_bytes)

lemma write_length_ba_band3:
  fixes n :: int64
  assumes "n \<le> 0xFFFFFFFF" and "\<not> n < 0x4000" and "n < 0x200000"
  shows "write_length_ba n = [ucast (drop_bit 16 n) OR 0xC0, ucast (drop_bit 8 n), ucast n]"
  using assms(2,3) band_order(1) [of n]
  by (auto simp add: write_length_ba_def sless_small [OF assms(1)] byte_and_ff band3_bytes)

lemma write_length_ba_band4:
  fixes n :: int64
  assumes "n \<le> 0xFFFFFFFF" and "\<not> n < 0x200000" and "n < 0x10000000"
  shows "write_length_ba n =
    [ucast (drop_bit 24 n) OR 0xE0, ucast (drop_bit 16 n), ucast (drop_bit 8 n), ucast n]"
  using assms(2,3) band_order(1,2) [of n]
  by (auto simp add: write_length_ba_def sless_small [OF assms(1)] byte_and_ff band4_bytes)

lemma write_length_ba_band5:
  fixes n :: int64
  assumes "n \<le> 0xFFFFFFFF" and "\<not> n < 0x10000000"
  shows "write_length_ba n =
    [0xF0, ucast (drop_bit 24 n), ucast (drop_bit 16 n), ucast (drop_bit 8 n), ucast n]"
  using assms(2) band_order [of n]
  by (auto simp add: write_length_ba_def sless_small [OF assms(1)] byte_and_ff
      sdrop_pos [OF assms(1)])

lemma read_byte_seg:
  assumes "rd c = (b # bs) # segs"
  shows "read_byte c = (ucast b, c\<lparr>rd := (if bs = [] then segs else bs # segs)\<rparr>)"
  using assms by (simp add: read_byte_def conn_Read_def)

lemma read_byte_upd:
  "read_byte (c\<lparr>rd := (b # bs) # segs\<rparr>)
     = (ucast b, c\<lparr>rd := (if bs = [] then segs else bs # segs)\<rparr>)"
  by (simp add: read_byte_seg)

lemma read_byte_upd2:
  "read_byte (c\<lparr>rd := (b # b' # bs) # segs\<rparr>) = (ucast b, c\<lparr>rd := (b' # bs) # segs\<rparr>)"
  by (simp add: read_byte_seg)

lemma read_length_1:
  fixes n :: int64
  assumes "n < 0x80"
  shows "read_length (c\<lparr>rd := (ucast n # rest) # segs\<rparr>)
     = (n, c\<lparr>rd := (if rest = [] then segs else rest # segs)\<rparr>)"
proof -
  have t: "(n AND 0x80 = 0) = True"
    unfolding and80 using upper_bits_clear [of n 7 7] assms by simp
  show ?thesis
    unfolding read_length_def
    by (simp only: read_byte_upd prod.case head_value1 [OF assms] t if_True)
qed

lemma read_length_2:
  fixes n :: int64
  assumes "n < 0x4000"
  shows "read_length (c\<lparr>rd := ((ucast (drop_bit 8 n) OR 0x80) # ucast n # rest) # segs\<rparr>)
     = (n, c\<lparr>rd := (if rest = [] then segs else rest # segs)\<rparr>)"
proof -
  let ?l = "ucast (ucast (drop_bit 8 n) OR 0x80 :: byte) :: int64"
  have t1: "(?l AND 0x80 = 0) = False"
    unfolding and80 using head_bits2 [OF assms] by simp
  have t2: "(?l AND 0xC0 = 0x80) = True"
    unfolding andC0 using head_bits2 [OF assms] by simp
  show ?thesis
    unfolding read_length_def
    by (simp only: read_byte_upd2 read_byte_upd prod.case t1 t2 if_True if_False
        head_value2 [OF assms] byte_step0)
qed

lemma read_length_3:
  fixes n :: int64
  assumes "n < 0x200000"
  shows "read_length (c\<lparr>rd := ((ucast (drop_bit 16 n) OR 0xC0) # ucast (drop_bit 8 n) # ucast n # rest) # segs\<rparr>)
     = (n, c\<lparr>rd := (if rest = [] then segs else rest # segs)\<rparr>)"
proof -
  let ?l = "ucast (ucast (drop_bit 16 n) OR 0xC0 :: byte) :: int64"
  have t1: "(?l AND 0x80 = 0) = False"
    unfolding and80 using head_bits3 [OF assms] by simp
  have t2: "(?l AND 0xC0 = 0x80) = False"
    unfolding andC0 using head_bits3 [OF assms] by simp
  have t3: "(?l AND 0xE0 = 0xC0) = True"
    unfolding andE0 using head_bits3 [OF assms] by simp
  show ?thesis
    unfolding read_length_def
    by (simp only: read_byte_upd2 read_byte_upd prod.case t1 t2 t3 if_True if_False
        head_value3 [OF assms] byte_step0 byte_step8)
qed

lemma read_length_4:
  fixes n :: int64
  assumes "n < 0x10000000"
  shows "read_length (c\<lparr>rd := ((ucast (drop_bit 24 n) OR 0xE0) # ucast (drop_bit 16 n) # ucast (drop_bit 8 n) # ucast n # rest) # segs\<rparr>)
     = (n, c\<lparr>rd := (if rest = [] then segs else rest # segs)\<rparr>)"
proof -
  let ?l = "ucast (ucast (drop_bit 24 n) OR 0xE0 :: byte) :: int64"
  have t1: "(?l AND 0x80 = 0) = False"
    unfolding and80 using head_bits4 [OF assms] by simp
  have t2: "(?l AND 0xC0 = 0x80) = False"
    unfolding andC0 using head_bits4 [OF assms] by simp
  have t3: "(?l AND 0xE0 = 0xC0) = False"
    unfolding andE0 using head_bits4 [OF assms] by simp
  have t4: "(?l AND 0xF0 = 0xE0) = True"
    unfolding andF0 using head_bits4 [OF assms] by simp
  show ?thesis
    unfolding read_length_def
    by (simp only: read_byte_upd2 read_byte_upd prod.case t1 t2 t3 t4 if_True if_False
        head_value4 [OF assms] byte_step0 byte_step8 byte_step16)
qed

lemma head_bits5:
  "bit (ucast (0xF0 :: byte) :: int64) 7" "bit (ucast (0xF0 :: byte) :: int64) 6"
  "bit (ucast (0xF0 :: byte) :: int64) 5" "bit (ucast (0xF0 :: byte) :: int64) 4"
  "\<not> bit (ucast (0xF0 :: byte) :: int64) 3"
  by (simp_all add: bit_simps const_bits)

lemma read_length_5:
  fixes n :: int64
  assumes "n \<le> 0xFFFFFFFF"
  shows "read_length (c\<lparr>rd := (0xF0 # ucast (drop_bit 24 n) # ucast (drop_bit 16 n) # ucast (drop_bit 8 n) # ucast n # rest) # segs\<rparr>)
     = (n, c\<lparr>rd := (if rest = [] then segs else rest # segs)\<rparr>)"
proof -
  let ?l = "ucast (0xF0 :: byte) :: int64"
  have t1: "(?l AND 0x80 = 0) = False"
    unfolding and80 using head_bits5 by simp
  have t2: "(?l AND 0xC0 = 0x80) = False"
    unfolding andC0 using head_bits5 by simp
  have t3: "(?l AND 0xE0 = 0xC0) = False"
    unfolding andE0 using head_bits5 by simp
  have t4: "(?l AND 0xF0 = 0xE0) = False"
    unfolding andF0 using head_bits5 by simp
  have t5: "(?l AND 0xF8 = 0xF0) = True"
    unfolding andF8 using head_bits5 by simp
  show ?thesis
    unfolding read_length_def
    by (simp only: read_byte_upd2 read_byte_upd prod.case t1 t2 t3 t4 t5 if_True if_False
        head_value5 [OF assms] byte_step0 byte_step8 byte_step16)
qed


lemma read_length_write_length_ba:
  fixes n :: int64
  assumes r: "n \<le> 0xFFFFFFFF"
  shows "read_length (c\<lparr>rd := (write_length_ba n @ rest) # segs\<rparr>)
           = (n, c\<lparr>rd := (if rest = [] then segs else rest # segs)\<rparr>)"
proof -
  consider (b1) "n < 0x80"
    | (b2) "\<not> n < 0x80" "n < 0x4000"
    | (b3) "\<not> n < 0x4000" "n < 0x200000"
    | (b4) "\<not> n < 0x200000" "n < 0x10000000"
    | (b5) "\<not> n < 0x10000000"
    by blast
  then show ?thesis
  proof cases
    case b1
    then show ?thesis by (simp add: write_length_ba_band1 [OF r] read_length_1)
  next
    case b2
    then show ?thesis by (simp add: write_length_ba_band2 [OF r] read_length_2)
  next
    case b3
    then show ?thesis by (simp add: write_length_ba_band3 [OF r] read_length_3)
  next
    case b4
    then show ?thesis by (simp add: write_length_ba_band4 [OF r] read_length_4)
  next
    case b5
    then show ?thesis by (simp add: write_length_ba_band5 [OF r] read_length_5 [OF r])
  qed
qed

text \<open>
  C1. For every length \<open>n\<close> from 0 to 0xFFFFFFFF, \<open>read_length\<close> on a stream that starts with
  the bytes \<open>write_length\<close> sends for \<open>n\<close> returns \<open>n\<close> and leaves the stream just behind
  them; the encoding has 1, 2, 3, 4 or 5 bytes according to the band of \<open>n\<close>
  (below 0x80, 0x4000, 0x200000, 0x10000000, or above), and the 5-byte form is the marker
  0xF0 followed by the four bytes of \<open>n\<close>, most significant first.
\<close>

theorem length_round_trip:
  fixes n :: int64
  assumes "0 <=s n" and "n <=s 0xFFFFFFFF"
  shows "read_length (c\<lparr>rd := (write_length_ba n @ rest) # segs\<rparr>)
           = (n, c\<lparr>rd := (if rest = [] then segs else rest # segs)\<rparr>)
       \<and> length (write_length_ba n) =
           (if n <s 0x80 then 1 else if n <s 0x4000 then 2 else if n <s 0x200000 then 3
            else if n <s 0x10000000 then 4 else 5)
       \<and> (if n <s 0x10000000 then True
          else write_length_ba n =
             [0xF0, ucast (drop_bit 24 n), ucast (drop_bit 16 n), ucast (drop_bit 8 n), ucast n])"
proof -
  have r: "n \<le> 0xFFFFFFFF" using assms by (rule signed_range)
  have rt: "read_length (c\<lparr>rd := (write_length_ba n @ rest) # segs\<rparr>)
           = (n, c\<lparr>rd := (if rest = [] then segs else rest # segs)\<rparr>)"
    using r by (rule read_length_write_length_ba)
  consider (b1) "n < 0x80"
    | (b2) "\<not> n < 0x80" "n < 0x4000"
    | (b3) "\<not> n < 0x4000" "n < 0x200000"
    | (b4) "\<not> n < 0x200000" "n < 0x10000000"
    | (b5) "\<not> n < 0x10000000"
    by blast
  then have "length (write_length_ba n) =
           (if n <s 0x80 then 1 else if n <s 0x4000 then 2 else if n <s 0x200000 then 3
            else if n <s 0x10000000 then 4 else 5)
       \<and> (if n <s 0x10000000 then True
          else write_length_ba n =
             [0xF0, ucast (drop_bit 24 n), ucast (drop_bit 16 n), ucast (drop_bit 8 n), ucast n])"
  proof cases
    case b1
    then show ?thesis
      using band_order [of n] by (simp add: write_length_ba_band1 [OF r] sless_small [OF r])
  next
    case b2
    then show ?thesis
      using band_order [of n] by (simp add: write_length_ba_band2 [OF r] sless_small [OF r])
  next
    case b3
    then show ?thesis
      using band_order [of n] by (auto simp add: write_length_ba_band3 [OF r] sless_small [OF r])
  next
    case b4
    then show ?thesis
      using band_order [of n] by (auto simp add: write_length_ba_band4 [OF r] sless_small [OF r])
  next
    case b5
    then show ?thesis
      using band_order [of n] by (auto simp add: write_length_ba_band5 [OF r] sless_small [OF r])
  qed
  with rt show ?thesis by (rule conjI)
qed

theorem length_round_trip_witness:
  "0 <=s (0x10000000 :: int64) \<and> (0x10000000 :: int64) <=s 0xFFFFFFFF
   \<and> write_length_ba 0x10000000 = [0xF0, 0x10, 0, 0, 0]
   \<and> read_length \<lparr>rd = [ [0xF0, 0x10, 0, 0, 0, 0x21] ], wr = [], wr_ok = True, io_errors = 0\<rparr>
       = (0x10000000, \<lparr>rd = [ [0x21] ], wr = [], wr_ok = True, io_errors = 0\<rparr>)"
proof -
  have h1: "0 <=s (0x10000000 :: int64)" and h2: "(0x10000000 :: int64) <=s 0xFFFFFFFF"
    by (simp_all add: word_sle_eq)
  have e: "write_length_ba 0x10000000 = [0xF0, 0x10, 0, 0, 0]"
    by (simp add: write_length_ba_def)
  note t = length_round_trip [OF h1 h2,
        where c = "\<lparr>rd = [], wr = [], wr_ok = True, io_errors = 0\<rparr>"
          and rest = "[0x21]" and segs = "[]"]
  have "read_length \<lparr>rd = [write_length_ba 0x10000000 @ [0x21] ], wr = [], wr_ok = True,
          io_errors = 0\<rparr>
        = (0x10000000, \<lparr>rd = [ [0x21] ], wr = [], wr_ok = True, io_errors = 0\<rparr>)"
    using t [THEN conjunct1] by simp
  then have r: "read_length \<lparr>rd = [ [0xF0, 0x10, 0, 0, 0, 0x21] ], wr = [], wr_ok = True,
          io_errors = 0\<rparr>
        = (0x10000000, \<lparr>rd = [ [0x21] ], wr = [], wr_ok = True, io_errors = 0\<rparr>)"
    by (simp add: e)
  show ?thesis
    using h1 h2 e r by blast
qed

section \<open>Words and sentences on the wire\<close>

lemma char_of_byte: "char_of (unat (of_char a :: byte)) = a"
proof -
  have "(of_char a :: byte) = of_nat (of_char a)" by (simp only: of_nat_of_char)
  then have "unat (of_char a :: byte) = of_char a mod 256" by (simp add: unat_of_nat)
  then show ?thesis by simp
qed

lemma string_of_bytes_of: "string_of (bytes_of s) = s"
  by (induction s) (simp_all add: string_of_def bytes_of_def char_of_byte)

lemma word_length_int64:
  assumes "length word \<le> 0xFFFFFFFF"
  shows "(of_nat (length word) :: int64) \<le> 0xFFFFFFFF"
    and "unat (of_nat (length word) :: int64) = length word"
proof -
  have "length word < 2 ^ 64" using assms by simp
  then show u: "unat (of_nat (length word) :: int64) = length word"
    by (simp add: unat_of_nat)
  show "(of_nat (length word) :: int64) \<le> 0xFFFFFFFF"
    using assms by (simp add: word_le_nat_alt u)
qed

lemma read_word_wire:
  assumes "length word \<le> 0xFFFFFFFF"
  shows "read_word (c\<lparr>rd := (wire_word word @ rest) # segs\<rparr>)
           = (word, c\<lparr>rd := (if rest = [] then segs else rest # segs)\<rparr>)"
proof -
  note n = word_length_int64 [OF assms]
  have rl: "read_length (c\<lparr>rd := (wire_word word @ rest) # segs\<rparr>)
      = (of_nat (length word),
         c\<lparr>rd := (if bytes_of word @ rest = [] then segs else (bytes_of word @ rest) # segs)\<rparr>)"
    using read_length_write_length_ba [OF n(1), where c = c and rest = "bytes_of word @ rest"
        and segs = segs]
    by (simp add: wire_word_def)
  show ?thesis
  proof (cases "word = []")
    case True
    with rl have "read_length (c\<lparr>rd := (wire_word [] @ rest) # segs\<rparr>)
        = (0, c\<lparr>rd := (if rest = [] then segs else rest # segs)\<rparr>)"
      by (simp add: bytes_of_def)
    with True show ?thesis
      by (simp add: read_word_def conn_Read_def string_of_def)
  next
    case False
    then have "bytes_of word \<noteq> []" by (simp add: bytes_of_def)
    moreover have "length (bytes_of word) = length word" by (simp add: bytes_of_def)
    ultimately show ?thesis
      using False
      by (simp add: read_word_def rl n(2) conn_Read_def string_of_bytes_of)
  qed
qed

lemma wire_word_Nil: "wire_word [] = [0]"
  by (simp add: wire_word_def write_length_ba_def bytes_of_def word_sless_alt)

lemma wire_sentence_Cons: "wire_sentence (w # ws) = wire_word w @ wire_sentence ws"
  by (simp add: wire_sentence_def)

lemma wire_sentence_not_Nil: "wire_sentence ws \<noteq> []"
  by (simp add: wire_sentence_def wire_word_Nil)

lemma read_word_rd:
  assumes "rd c = (wire_word word @ rest) # segs" and "length word \<le> 0xFFFFFFFF"
  shows "read_word c = (word, c\<lparr>rd := (if rest = [] then segs else rest # segs)\<rparr>)"
proof -
  have "c = c\<lparr>rd := (wire_word word @ rest) # segs\<rparr>" using assms(1) by simp
  then show ?thesis
    using read_word_wire [OF assms(2), where c = c and rest = rest and segs = segs] by simp
qed

lemma read_sentence_loop_wire:
  assumes "rd c = (wire_sentence ws @ rest) # segs"
    and "\<forall>w\<in>set ws. w \<noteq> [] \<and> length w \<le> 0xFFFFFFFF"
  shows "read_sentence_loop c acc =
     (case parse_sentence (acc @ ws) of
        Inl p \<Rightarrow> Inl p
      | Inr sentence \<Rightarrow> Inr (sentence, c\<lparr>rd := (if rest = [] then segs else rest # segs)\<rparr>))"
  using assms
proof (induction ws arbitrary: c acc)
  case Nil
  then have "rd c = (wire_word [] @ rest) # segs" by (simp add: wire_sentence_def)
  then have "read_word c = ([], c\<lparr>rd := (if rest = [] then segs else rest # segs)\<rparr>)"
    by (rule read_word_rd) simp
  then show ?case
    by (subst read_sentence_loop.simps) simp
next
  case (Cons w ws)
  let ?c' = "c\<lparr>rd := (wire_sentence ws @ rest) # segs\<rparr>"
  have "rd c = (wire_word w @ (wire_sentence ws @ rest)) # segs"
    using Cons.prems(1) by (simp add: wire_sentence_Cons)
  moreover have "length w \<le> 0xFFFFFFFF" using Cons.prems(2) by simp
  ultimately have "read_word c = (w, ?c')"
    using read_word_rd [of c w "wire_sentence ws @ rest" segs]
    by (simp add: wire_sentence_not_Nil)
  moreover have "w \<noteq> []" using Cons.prems(2) by simp
  ultimately have "read_sentence_loop c acc = read_sentence_loop ?c' (acc @ [w])"
    by (subst read_sentence_loop.simps) simp
  also have "\<dots> = (case parse_sentence ((acc @ [w]) @ ws) of
        Inl p \<Rightarrow> Inl p
      | Inr sentence \<Rightarrow> Inr (sentence, ?c'\<lparr>rd := (if rest = [] then segs else rest # segs)\<rparr>))"
    using Cons.prems(2) by (intro Cons.IH) simp_all
  finally show ?case by (simp cong: sum.case_cong)
qed

lemma read_sentence_wire:
  assumes "rd c = (wire_sentence ws @ rest) # segs"
    and "\<forall>w\<in>set ws. w \<noteq> [] \<and> length w \<le> 0xFFFFFFFF"
  shows "read_sentence c =
     (case parse_sentence ws of
        Inl p \<Rightarrow> Inl p
      | Inr sentence \<Rightarrow> Inr (sentence, c\<lparr>rd := (if rest = [] then segs else rest # segs)\<rparr>))"
  using read_sentence_loop_wire [OF assms, of "[]"] by (simp add: read_sentence_def)

lemma conn_Write_rd: "rd (snd (conn_Write c bs)) = rd c"
  by (simp add: conn_Write_def)

lemma write_word_rd: "rd (write_word c word) = rd c"
  by (simp add: write_word_def write_length_def Let_def conn_Write_rd)

lemma write_sentence_rd: "rd (write_sentence c ks sentence) = rd c"
proof -
  have "rd (foldl (\<lambda>c' k. write_word c' (f k)) c' ks) = rd c'" for f and c' :: Conn
    by (induction ks arbitrary: c') (simp_all add: write_word_rd)
  then show ?thesis
    by (simp add: write_sentence_def Let_def write_word_rd)
qed

lemma write_word_ok:
  assumes "wr_ok c"
  shows "write_word c word = c\<lparr>wr := wr c @ wire_word word\<rparr>"
  using assms by (simp add: write_word_def write_length_def conn_Write_def wire_word_def)

lemma write_words_ok:
  assumes "wr_ok c"
  shows "foldl (\<lambda>c' k. write_word c' (f k)) c ks = c\<lparr>wr := wr c @ concat (map (wire_word \<circ> f) ks)\<rparr>"
  using assms
proof (induction ks arbitrary: c)
  case Nil
  then show ?case by simp
next
  case (Cons k ks)
  have "wr_ok (write_word c (f k))" using Cons.prems by (simp add: write_word_ok)
  then show ?case
    using Cons.IH [of "write_word c (f k)"] Cons.prems by (simp add: write_word_ok)
qed

lemma write_sentence_ok:
  assumes "wr_ok c"
  shows "write_sentence c ks sentence =
     c\<lparr>wr := wr c @ wire_sentence (Command sentence #
            map (\<lambda>k. k @ ''='' @ attr (Attributes sentence) k) ks)\<rparr>"
proof -
  let ?c1 = "write_word c (Command sentence)"
  have ok1: "wr_ok ?c1" using assms by (simp add: write_word_ok)
  show ?thesis
    using assms ok1
    by (simp add: write_sentence_def Let_def write_words_ok write_word_ok
        wire_sentence_def comp_def)
qed

section \<open>Parsing the attribute words\<close>

lemma split_at_match:
  assumes "split_at k rest \<noteq> []"
  shows "CHR ''='' \<in> set rest \<and> CHR 0x0A \<notin> set rest"
proof -
  from assms obtain v where d: "drop k rest = CHR ''='' # v"
    and t: "dot_star (take k rest)" and v: "dot_star v"
    by (auto simp add: split_at_def split: if_splits list.splits)
  have r: "rest = take k rest @ CHR ''='' # v"
    using d by (metis append_take_drop_id)
  have "CHR ''='' \<in> set rest" by (subst r) simp
  moreover have "CHR 0x0A \<notin> set rest"
    using t v by (subst r) (simp add: dot_star_def)
  ultimately show ?thesis by simp
qed

lemma backtrack_no_match:
  assumes "\<not> (CHR ''='' \<in> set rest \<and> CHR 0x0A \<notin> set rest)"
  shows "backtrack k rest = []"
proof (induction k)
  case 0
  show ?case using assms split_at_match [of 0 rest] by auto
next
  case (Suc k)
  have "split_at (Suc k) rest = []" using assms split_at_match [of "Suc k" rest] by auto
  then show ?case using Suc by simp
qed

lemma no_shape_no_match:
  assumes "\<not> attribute_shape word"
  shows "word_regex_FindStringSubmatch word = []"
  using assms
  by (auto simp add: attribute_shape_def word_regex_FindStringSubmatch_def backtrack_no_match
      split: list.splits)

lemma parse_attributes_panic:
  assumes "w \<in> set ws" and "word_regex_FindStringSubmatch w = []"
  shows "parse_attributes ws m = Inl IndexOutOfRange"
  using assms by (induction ws arbitrary: m) (auto simp add: Let_def)

text \<open>
  C10. \<open>parse_sentence\<close> is not total: when any word after the command does not have the
  shape \<open>=name=value\<close> (it does not begin with \<open>=\<close>, or holds no second \<open>=\<close>, or holds a
  newline), the match yields the nil slice, indexing it panics, and the sentence is not
  decoded: the result is the panic, not an error value.
\<close>

theorem parse_sentence_panics:
  assumes "w \<in> set ws" and "\<not> attribute_shape w"
  shows "parse_sentence (cmd # ws) = Inl IndexOutOfRange"
  using parse_attributes_panic [OF assms(1) no_shape_no_match [OF assms(2)] ]
  by (simp add: parse_sentence_def)

theorem parse_sentence_panics_witness:
  "''=x'' \<in> set [''=x''] \<and> \<not> attribute_shape ''=x''
   \<and> parse_sentence [''!re'', ''=x''] = Inl IndexOutOfRange
   \<and> ''running'' \<in> set [''=a=b'', ''running''] \<and> \<not> attribute_shape ''running''
   \<and> parse_sentence [''!re'', ''=a=b'', ''running''] = Inl IndexOutOfRange"
proof -
  have a: "''=x'' \<in> set [''=x'']" and b: "\<not> attribute_shape ''=x''"
    by (simp_all add: attribute_shape_def)
  have c: "''running'' \<in> set [''=a=b'', ''running'']" and d: "\<not> attribute_shape ''running''"
    by (simp_all add: attribute_shape_def)
  show ?thesis
    using a b c d parse_sentence_panics [OF a b, of "''!re''"]
      parse_sentence_panics [OF c d, of "''!re''"]
    by blast
qed

text \<open>
  C3. The word \<open>=comment=a=b\<close> is split at its last \<open>=\<close>, not at the first one after the name:
  the first group of the pattern is greedy. The decoded attribute is \<open>=comment=a\<close> with
  value \<open>b\<close>, so the sentence that \<open>write_sentence\<close> sends for the attribute \<open>=comment\<close>
  with value \<open>a=b\<close> is not read back as it was written.
\<close>

theorem parse_sentence_greedy:
  "word_regex_FindStringSubmatch ''=comment=a=b'' = [''=comment=a=b'', ''=comment=a'', ''b'']
   \<and> parse_sentence [''!re'', ''=comment=a=b'']
       = Inr \<lparr>Command = ''!re'', Attributes = [''=comment=a'' \<mapsto> ''b'']\<rparr>
   \<and> wr (write_sentence (stub_conn []) [''=comment'']
            \<lparr>Command = ''!re'', Attributes = [''=comment'' \<mapsto> ''a=b'']\<rparr>)
       = wire_sentence [''!re'', ''=comment=a=b'']
   \<and> read_sentence (stub_conn [wire_sentence [''!re'', ''=comment=a=b''] ])
       = Inr (\<lparr>Command = ''!re'', Attributes = [''=comment=a'' \<mapsto> ''b'']\<rparr>, stub_conn [])"
proof -
  have m: "word_regex_FindStringSubmatch ''=comment=a=b'' = [''=comment=a=b'', ''=comment=a'', ''b'']"
    by (simp add: word_regex_FindStringSubmatch_def split_at_def dot_star_def)
  have p: "parse_sentence [''!re'', ''=comment=a=b'']
       = Inr \<lparr>Command = ''!re'', Attributes = [''=comment=a'' \<mapsto> ''b'']\<rparr>"
    by (simp add: parse_sentence_def m)
  have w: "wr (write_sentence (stub_conn []) [''=comment'']
            \<lparr>Command = ''!re'', Attributes = [''=comment'' \<mapsto> ''a=b'']\<rparr>)
       = wire_sentence [''!re'', ''=comment=a=b'']"
    by (simp add: write_sentence_ok stub_conn_def attr_def)
  let ?c = "stub_conn [wire_sentence [''!re'', ''=comment=a=b''] ]"
  have "rd ?c = (wire_sentence [''!re'', ''=comment=a=b''] @ []) # []"
    by (simp add: stub_conn_def)
  then have "read_sentence ?c =
     (case parse_sentence [''!re'', ''=comment=a=b''] of
        Inl p \<Rightarrow> Inl p
      | Inr sentence \<Rightarrow>
          Inr (sentence, ?c\<lparr>rd := (if [] = ([] :: byte list) then [] else [] # [])\<rparr>))"
    by (rule read_sentence_wire) simp
  then have r: "read_sentence ?c
       = Inr (\<lparr>Command = ''!re'', Attributes = [''=comment=a'' \<mapsto> ''b'']\<rparr>, stub_conn [])"
    by (simp add: p stub_conn_def)
  show ?thesis using m p w r by blast
qed

section \<open>The reply loop\<close>


lemma loop_post_step:
  assumes "loop_post (reply @ [s]) (trap_error s err) r e"
    and "Command s \<noteq> []" and "Command s \<noteq> ''!done''"
  shows "loop_post reply err r e"
proof -
  from assms(1) obtain new where n: "r = (reply @ [s]) @ new" "new \<noteq> []"
    "Command (last new) = ''!done''" "\<forall>s\<in>set new. Command s \<noteq> []"
    "\<forall>s\<in>set (butlast new). Command s \<noteq> ''!done''" "e = reply_error new (trap_error s err)"
    unfolding loop_post_def by blast
  show ?thesis
    unfolding loop_post_def
    using n assms(2,3) by (intro exI [of _ "s # new"]) simp
qed

lemma loop_post_done:
  assumes "Command s = ''!done''"
  shows "loop_post reply err (reply @ [s]) (trap_error s err)"
  unfolding loop_post_def using assms by (intro exI [of _ "[s]"]) simp

lemma RunCommand_loop_result:
  assumes "RunCommand_loop c reply err = Some y"
  shows "case y of Inl p \<Rightarrow> True | Inr (r, e, c') \<Rightarrow> loop_post reply err r e"
  using assms
proof (induction rule: RunCommand_loop.raw_induct [rotated 1, consumes 1])
  case (1 loop c reply err y)
  show ?case
  proof (cases "read_sentence c")
    case (Inl p)
    then show ?thesis using "1.hyps" by auto
  next
    case (Inr sc)
    obtain s c1 where sc: "sc = (s, c1)" by (cases sc)
    show ?thesis
    proof (cases "Command s = []")
      case True
      then have "loop c1 reply err = Some y" using "1.hyps" Inr sc by simp
      then show ?thesis by (rule "1.IH")
    next
      case ne: False
      show ?thesis
      proof (cases "Command s = ''!done''")
        case True
        then have "y = Inr (reply @ [s], trap_error s err, c1)"
          using "1.hyps" Inr sc ne by simp
        then show ?thesis using loop_post_done [OF True] by simp
      next
        case False
        then have "loop c1 (reply @ [s]) (trap_error s err) = Some y"
          using "1.hyps" Inr sc ne by simp
        then have "case y of Inl p \<Rightarrow> True
            | Inr (r, e, c') \<Rightarrow> loop_post (reply @ [s]) (trap_error s err) r e"
          by (rule "1.IH")
        then show ?thesis
          using loop_post_step [OF _ ne False] by (auto split: sum.splits)
      qed
    qed
  qed
qed

lemma RunCommand_loop_reads:
  assumes "read_sentences k c = Inr (ss, c1)"
    and "\<forall>s\<in>set ss. Command s \<noteq> ''!done''"
    and "read_sentence c1 = Inr (d, c2)"
    and "Command d = ''!done''"
  shows "RunCommand_loop c reply err =
     Some (Inr (reply @ filter (\<lambda>s. Command s \<noteq> []) ss @ [d],
                trap_error d (reply_error (filter (\<lambda>s. Command s \<noteq> []) ss) err), c2))"
  using assms(1,2)
proof (induction k arbitrary: c ss reply err)
  case 0
  then have "ss = []" and "c1 = c" by simp_all
  then show ?case
    using assms(3,4) by (subst RunCommand_loop.simps) simp
next
  case (Suc k)
  from Suc.prems(1) obtain s c' ss' where rs: "read_sentence c = Inr (s, c')"
    and rest: "read_sentences k c' = Inr (ss', c1)" and ss: "ss = s # ss'"
    by (auto split: sum.splits)
  have nd: "Command s \<noteq> ''!done''" and nd': "\<forall>s\<in>set ss'. Command s \<noteq> ''!done''"
    using Suc.prems(2) ss by simp_all
  show ?case
  proof (cases "Command s = []")
    case True
    have "RunCommand_loop c reply err = RunCommand_loop c' reply err"
      using rs True by (subst RunCommand_loop.simps) simp
    then show ?thesis
      using Suc.IH [OF rest nd', of reply err] True ss by simp
  next
    case False
    have "RunCommand_loop c reply err = RunCommand_loop c' (reply @ [s]) (trap_error s err)"
      using rs False nd by (subst RunCommand_loop.simps) simp
    then show ?thesis
      using Suc.IH [OF rest nd', of "reply @ [s]" "trap_error s err"] False ss by simp
  qed
qed

lemma RunCommand_returns:
  assumes "RunCommand ks client command = Some (Inr (reply, err, client'))"
  shows "loop_post [] None reply err"
proof -
  from assms obtain c c' where "conn client = Some c"
    and "RunCommand_loop (write_sentence c ks command) [] None = Some (Inr (reply, err, c'))"
    by (auto simp add: RunCommand_def split: option.splits sum.splits)
  then show ?thesis
    using RunCommand_loop_result [of "write_sentence c ks command" "[]" None] by simp
qed



lemma read_sentences_wire:
  assumes "rd c = (concat (map wire_sentence wss) @ rest) # segs"
    and "\<forall>ws\<in>set wss. \<forall>w\<in>set ws. w \<noteq> [] \<and> length w \<le> 0xFFFFFFFF"
    and "map parse_sentence wss = map Inr ss"
    and "rest \<noteq> []"
  shows "read_sentences (length wss) c = Inr (ss, c\<lparr>rd := rest # segs\<rparr>)"
  using assms(1-3)
proof (induction wss arbitrary: c ss)
  case Nil
  then show ?case by simp
next
  case (Cons ws wss)
  from Cons.prems(3) obtain s ss' where ss: "ss = s # ss'" and s: "parse_sentence ws = Inr s"
    and ss': "map parse_sentence wss = map Inr ss'"
    by (cases ss) auto
  let ?c' = "c\<lparr>rd := (concat (map wire_sentence wss) @ rest) # segs\<rparr>"
  have "rd c = (wire_sentence ws @ (concat (map wire_sentence wss) @ rest)) # segs"
    using Cons.prems(1) by simp
  moreover have "\<forall>w\<in>set ws. w \<noteq> [] \<and> length w \<le> 0xFFFFFFFF"
    using Cons.prems(2) by simp
  ultimately have r: "read_sentence c = Inr (s, ?c')"
    using read_sentence_wire [of c ws "concat (map wire_sentence wss) @ rest" segs] s assms(4)
    by simp
  have "read_sentences (length wss) ?c' = Inr (ss', ?c'\<lparr>rd := rest # segs\<rparr>)"
    using Cons.prems(2) ss' by (intro Cons.IH) simp_all
  then show ?case
    using r ss by simp
qed

lemma RunCommand_exchange:
  assumes "conn client = Some c0"
    and "rd c0 = [concat (map wire_sentence wss) @ wire_sentence dws]"
    and "\<forall>ws\<in>set wss. \<forall>w\<in>set ws. w \<noteq> [] \<and> length w \<le> 0xFFFFFFFF"
    and "\<forall>w\<in>set dws. w \<noteq> [] \<and> length w \<le> 0xFFFFFFFF"
    and "map parse_sentence wss = map Inr ss"
    and "parse_sentence dws = Inr d"
    and "Command d = ''!done''"
    and "\<forall>s\<in>set ss. Command s \<noteq> ''!done''"
  shows "RunCommand ks client command =
     Some (Inr (filter (\<lambda>s. Command s \<noteq> []) ss @ [d],
                trap_error d (reply_error (filter (\<lambda>s. Command s \<noteq> []) ss) None),
                client\<lparr>conn := Some ((write_sentence c0 ks command)\<lparr>rd := []\<rparr>)\<rparr>))"
proof -
  let ?c1 = "write_sentence c0 ks command"
  let ?c2 = "?c1\<lparr>rd := [wire_sentence dws]\<rparr>"
  have rd1: "rd ?c1 = (concat (map wire_sentence wss) @ wire_sentence dws) # []"
    using assms(2) by (simp add: write_sentence_rd)
  have a: "read_sentences (length wss) ?c1 = Inr (ss, ?c2)"
    using rd1 assms(3,5) wire_sentence_not_Nil by (rule read_sentences_wire)
  have "rd ?c2 = (wire_sentence dws @ []) # []" by simp
  then have "read_sentence ?c2 =
     (case parse_sentence dws of
        Inl p \<Rightarrow> Inl p
      | Inr sentence \<Rightarrow> Inr (sentence, ?c2\<lparr>rd := (if [] = ([] :: byte list) then [] else [] # [])\<rparr>))"
    using assms(4) by (rule read_sentence_wire)
  then have b: "read_sentence ?c2 = Inr (d, ?c1\<lparr>rd := []\<rparr>)"
    using assms(6) by simp
  show ?thesis
    using assms(1) RunCommand_loop_reads [OF a assms(8) b assms(7), of "[]" None]
    by (simp add: RunCommand_def)
qed

lemma parse_re:
  "parse_sentence [''!re'', ''=running=false'', ''=connect-to=10.0.0.5'', ''=.id=*3'']
     = Inr \<lparr>Command = ''!re'',
            Attributes = [''=running'' \<mapsto> ''false'', ''=connect-to'' \<mapsto> ''10.0.0.5'',
                          ''=.id'' \<mapsto> ''*3'']\<rparr>"
  by (simp add: parse_sentence_def word_regex_FindStringSubmatch_def split_at_def dot_star_def)

lemma parse_done:
  "parse_sentence [''!done''] = Inr \<lparr>Command = ''!done'', Attributes = Map.empty\<rparr>"
  by (simp add: parse_sentence_def)

lemma exchange_print:
  "RunCommand [] (stub_client [wire_sentence [''!re'', ''=running=false'', ''=connect-to=10.0.0.5'', ''=.id=*3'']
        @ wire_sentence [''!done''] ]) print_query
   = Some (Inr ([\<lparr>Command = ''!re'',
            Attributes = [''=running'' \<mapsto> ''false'', ''=connect-to'' \<mapsto> ''10.0.0.5'',
                          ''=.id'' \<mapsto> ''*3'']\<rparr>, \<lparr>Command = ''!done'', Attributes = Map.empty\<rparr>],
         None,
         (stub_client [])\<lparr>conn := Some ((stub_conn [])\<lparr>wr := wire_sentence [''/interface/ovpn-client/print'']\<rparr>)\<rparr>))"
proof -
  let ?wss = "[ [''!re'', ''=running=false'', ''=connect-to=10.0.0.5'', ''=.id=*3''] ]"
  let ?rd = "[wire_sentence [''!re'', ''=running=false'', ''=connect-to=10.0.0.5'', ''=.id=*3'']
        @ wire_sentence [''!done''] ]"
  have c: "conn (stub_client ?rd) = Some (stub_conn ?rd)" by (simp add: stub_client_def)
  have r: "rd (stub_conn ?rd) = [concat (map wire_sentence ?wss) @ wire_sentence [''!done''] ]"
    by (simp add: stub_conn_def)
  have w1: "\<forall>ws\<in>set ?wss. \<forall>w\<in>set ws. w \<noteq> [] \<and> length w \<le> 0xFFFFFFFF" by simp
  have w2: "\<forall>w\<in>set [''!done'']. w \<noteq> [] \<and> length w \<le> 0xFFFFFFFF" by simp
  have p: "map parse_sentence ?wss = map Inr [\<lparr>Command = ''!re'',
            Attributes = [''=running'' \<mapsto> ''false'', ''=connect-to'' \<mapsto> ''10.0.0.5'',
                          ''=.id'' \<mapsto> ''*3'']\<rparr>]"
    by (simp add: parse_re)
  show ?thesis
    using RunCommand_exchange [OF c r w1 w2 p parse_done, of "[]" print_query]
    by (simp add: trap_error_def write_sentence_ok stub_conn_def stub_client_def print_query_def)
qed

text \<open>
  C2. Whenever \<open>RunCommand\<close> returns a reply, with or without an error, the reply is not
  empty and the command of its last sentence is \<open>!done\<close>.
\<close>

theorem RunCommand_reply_ends_with_done:
  assumes "RunCommand ks client command = Some (Inr (reply, err, client'))"
  shows "reply \<noteq> [] \<and> Command (last reply) = ''!done''"
  using RunCommand_returns [OF assms] by (auto simp add: loop_post_def)

theorem RunCommand_reply_ends_with_done_witness:
  "RunCommand [] (stub_client [wire_sentence [''!re'', ''=running=false'', ''=connect-to=10.0.0.5'', ''=.id=*3'']
        @ wire_sentence [''!done''] ]) print_query
   = Some (Inr ([\<lparr>Command = ''!re'',
            Attributes = [''=running'' \<mapsto> ''false'', ''=connect-to'' \<mapsto> ''10.0.0.5'',
                          ''=.id'' \<mapsto> ''*3'']\<rparr>, \<lparr>Command = ''!done'', Attributes = Map.empty\<rparr>],
         None,
         (stub_client [])\<lparr>conn := Some ((stub_conn [])\<lparr>wr := wire_sentence [''/interface/ovpn-client/print'']\<rparr>)\<rparr>))
   \<and> [\<lparr>Command = ''!re'',
            Attributes = [''=running'' \<mapsto> ''false'', ''=connect-to'' \<mapsto> ''10.0.0.5'',
                          ''=.id'' \<mapsto> ''*3'']\<rparr>, \<lparr>Command = ''!done'', Attributes = Map.empty\<rparr>] \<noteq> []
   \<and> Command (last [\<lparr>Command = ''!re'',
            Attributes = [''=running'' \<mapsto> ''false'', ''=connect-to'' \<mapsto> ''10.0.0.5'',
                          ''=.id'' \<mapsto> ''*3'']\<rparr>, \<lparr>Command = ''!done'', Attributes = Map.empty\<rparr>]) = ''!done''"
  using exchange_print RunCommand_reply_ends_with_done [OF exchange_print]
  by (rule conjI)




lemma read_sentence_empty_word:
  assumes "read_word c = ([], c')"
  shows "read_sentence c = Inr (no_data, c')"
  using assms
  by (simp add: read_sentence_def read_sentence_loop.simps [of c] parse_sentence_def)

lemma parse_nothing: "parse_sentence [] = Inr no_data"
  by (simp add: parse_sentence_def)

lemma exchange_empty_then_done:
  "RunCommand [] (stub_client [wire_sentence [] @ wire_sentence [''!done''] ]) print_query
     = Some (Inr ([done_sentence], None,
         (stub_client [])\<lparr>conn := Some ((stub_conn [])\<lparr>wr := wire_sentence [''/interface/ovpn-client/print'']\<rparr>)\<rparr>))"
proof -
  let ?rd = "[wire_sentence [] @ wire_sentence [''!done''] ]"
  have c: "conn (stub_client ?rd) = Some (stub_conn ?rd)" by (simp add: stub_client_def)
  have r: "rd (stub_conn ?rd) = [concat (map wire_sentence [ [] ]) @ wire_sentence [''!done''] ]"
    by (simp add: stub_conn_def)
  have w1: "\<forall>ws\<in>set [ [] :: string list]. \<forall>w\<in>set ws. w \<noteq> [] \<and> length w \<le> 0xFFFFFFFF" by simp
  have w2: "\<forall>w\<in>set [''!done'']. w \<noteq> [] \<and> length w \<le> 0xFFFFFFFF" by simp
  have p: "map parse_sentence [ [] ] = map Inr [no_data]" by (simp add: parse_nothing)
  have d: "parse_sentence [''!done''] = Inr done_sentence"
    by (simp add: parse_done done_sentence_def)
  have cd: "Command done_sentence = ''!done''" by (simp add: done_sentence_def)
  have nd: "\<forall>s\<in>set [no_data]. Command s \<noteq> ''!done''" by (simp add: no_data_def)
  show ?thesis
    using RunCommand_exchange [OF c r w1 w2 p d cd nd, of "[]" print_query]
    by (simp add: trap_error_def write_sentence_ok stub_conn_def stub_client_def print_query_def
        no_data_def done_sentence_def)
qed

text \<open>
  C9. No sentence of a reply returned by \<open>RunCommand\<close> has an empty command, so none is
  the no-data sentence; and a zero-length word arriving first makes \<open>read_sentence\<close>
  return the no-data sentence.
\<close>

theorem no_data_never_in_reply:
  "(RunCommand ks client command = Some (Inr (reply, err, client'))
      \<longrightarrow> (\<forall>s\<in>set reply. Command s \<noteq> [] \<and> s \<noteq> no_data))
   \<and> (read_word c = ([], c') \<longrightarrow> read_sentence c = Inr (no_data, c'))"
proof (intro conjI impI)
  assume "RunCommand ks client command = Some (Inr (reply, err, client'))"
  then have "loop_post [] None reply err" by (rule RunCommand_returns)
  then show "\<forall>s\<in>set reply. Command s \<noteq> [] \<and> s \<noteq> no_data"
    by (auto simp add: loop_post_def no_data_def)
next
  assume "read_word c = ([], c')"
  then show "read_sentence c = Inr (no_data, c')" by (rule read_sentence_empty_word)
qed

theorem no_data_never_in_reply_witness:
  "RunCommand [] (stub_client [wire_sentence [] @ wire_sentence [''!done''] ]) print_query
     = Some (Inr ([done_sentence], None,
         (stub_client [])\<lparr>conn := Some ((stub_conn [])\<lparr>wr := wire_sentence [''/interface/ovpn-client/print'']\<rparr>)\<rparr>))
   \<and> Command done_sentence \<noteq> [] \<and> done_sentence \<noteq> no_data
   \<and> read_word (stub_conn [wire_sentence [] @ wire_sentence [''!done''] ])
       = ([], stub_conn [wire_sentence [''!done''] ])
   \<and> read_sentence (stub_conn [wire_sentence [] @ wire_sentence [''!done''] ])
       = Inr (no_data, stub_conn [wire_sentence [''!done''] ])"
proof -
  let ?c = "stub_conn [wire_sentence [] @ wire_sentence [''!done''] ]"
  note t = no_data_never_in_reply [of "[]" "stub_client [wire_sentence [] @ wire_sentence [''!done''] ]"
      print_query "[done_sentence]" None
      "(stub_client [])\<lparr>conn := Some ((stub_conn [])\<lparr>wr := wire_sentence [''/interface/ovpn-client/print'']\<rparr>)\<rparr>"
      ?c "stub_conn [wire_sentence [''!done''] ]"]
  have a: "Command done_sentence \<noteq> [] \<and> done_sentence \<noteq> no_data"
    using t [THEN conjunct1, rule_format, OF exchange_empty_then_done] by simp
  have "rd ?c = (wire_word [] @ wire_sentence [''!done'']) # []"
    by (simp add: stub_conn_def wire_sentence_def)
  then have "read_word ?c = ([], ?c\<lparr>rd := (if wire_sentence [''!done''] = [] then []
        else wire_sentence [''!done''] # [])\<rparr>)"
    by (rule read_word_rd) simp
  then have b: "read_word ?c = ([], stub_conn [wire_sentence [''!done''] ])"
    by (simp add: stub_conn_def wire_sentence_not_Nil)
  have c: "read_sentence ?c = Inr (no_data, stub_conn [wire_sentence [''!done''] ])"
    using t [THEN conjunct2, rule_format, OF b] .
  show ?thesis
    using exchange_empty_then_done a b c by simp
qed


lemma read_word_eof:
  assumes "rd c = []"
  shows "read_word c = ([], c\<lparr>io_errors := io_errors c + 1\<rparr>)"
  using assms
  by (simp add: read_word_def read_length_def read_byte_def conn_Read_def string_of_def)

lemma read_sentence_eof:
  assumes "rd c = []"
  shows "read_sentence c = Inr (no_data, c\<lparr>io_errors := io_errors c + 1\<rparr>)"
  using assms
  by (simp add: read_sentence_def read_sentence_loop.simps [of c] read_word_eof parse_sentence_def)

text \<open>
  Once the stream has ended, every \<open>Read\<close> fails, every word read is empty and the loop
  goes on reading the no-data sentence: \<open>RunCommand\<close> does not return.
\<close>

lemma RunCommand_loop_needs_input:
  assumes "RunCommand_loop c reply err = Some y"
  shows "rd c \<noteq> []"
  using assms
proof (induction rule: RunCommand_loop.raw_induct [rotated 1, consumes 1])
  case (1 loop c reply err y)
  show ?case
  proof
    assume e: "rd c = []"
    let ?c' = "c\<lparr>io_errors := io_errors c + 1\<rparr>"
    have "loop ?c' reply err = Some y"
      using "1.hyps" by (simp add: read_sentence_eof [OF e] no_data_def)
    then have "rd ?c' \<noteq> []" by (rule "1.IH")
    then show False using e by simp
  qed
qed

lemma RunCommand_loop_eof:
  assumes "rd c = []"
  shows "RunCommand_loop c reply err = None"
proof (cases "RunCommand_loop c reply err")
  case None
  then show ?thesis .
next
  case (Some y)
  then have "rd c \<noteq> []" by (rule RunCommand_loop_needs_input)
  then show ?thesis using assms by simp
qed

lemma RunCommand_at_eof:
  "RunCommand [] (stub_client []) print_query = None"
  by (simp add: RunCommand_def stub_client_def RunCommand_loop_eof write_sentence_rd stub_conn_def)





section \<open>Sentence round trip\<close>

lemma two_orders:
  assumes "distinct ks" and "set ks = {a, b}" and "a \<noteq> b"
  shows "ks = [a, b] \<or> ks = [b, a]"
proof -
  have "length ks = card {a, b}" using assms(1,2) distinct_card by metis
  then have "length ks = 2" using assms(3) by simp
  then obtain x y where ks: "ks = [x, y]"
    by (metis (no_types) length_0_conv length_Suc_conv numeral_2_eq_2)
  then have "{x, y} = {a, b}" using assms(2) by simp
  then show ?thesis using ks by (auto simp add: doubleton_eq_iff)
qed

lemma parse_set_1:
  "parse_sentence [''/interface/ovpn-client/set'', ''=.id=*1'', ''=connect-to=203.0.113.9'']
     = Inr (set_openvpn_ip_query ''*1'' ''203.0.113.9'')"
  by (simp add: parse_sentence_def word_regex_FindStringSubmatch_def split_at_def dot_star_def
      set_openvpn_ip_query_def)

lemma parse_set_2:
  "parse_sentence [''/interface/ovpn-client/set'', ''=connect-to=203.0.113.9'', ''=.id=*1'']
     = Inr (set_openvpn_ip_query ''*1'' ''203.0.113.9'')"
proof -
  have "[''=connect-to'' \<mapsto> ''203.0.113.9'', ''=.id'' \<mapsto> ''*1'']
      = [''=.id'' \<mapsto> ''*1'', ''=connect-to'' \<mapsto> ''203.0.113.9'']"
    by (rule fun_upd_twist) simp
  then show ?thesis
    by (simp add: parse_sentence_def word_regex_FindStringSubmatch_def split_at_def dot_star_def
      set_openvpn_ip_query_def)
qed

lemma round_trip_words:
  assumes "parse_sentence (Command s # map (\<lambda>k. k @ ''='' @ attr (Attributes s) k) ks) = Inr s"
    and "\<forall>w\<in>set (Command s # map (\<lambda>k. k @ ''='' @ attr (Attributes s) k) ks).
           w \<noteq> [] \<and> length w \<le> 0xFFFFFFFF"
  shows "read_sentence (c\<lparr>rd := [wr (write_sentence (stub_conn []) ks s)]\<rparr>) = Inr (s, c\<lparr>rd := []\<rparr>)"
proof -
  let ?ws = "Command s # map (\<lambda>k. k @ ''='' @ attr (Attributes s) k) ks"
  have "wr (write_sentence (stub_conn []) ks s) = wire_sentence ?ws"
    by (simp add: write_sentence_ok stub_conn_def)
  then have "rd (c\<lparr>rd := [wr (write_sentence (stub_conn []) ks s)]\<rparr>) = (wire_sentence ?ws @ []) # []"
    by simp
  then have "read_sentence (c\<lparr>rd := [wr (write_sentence (stub_conn []) ks s)]\<rparr>) =
     (case parse_sentence ?ws of
        Inl p \<Rightarrow> Inl p
      | Inr sentence \<Rightarrow> Inr (sentence, c\<lparr>rd := [wr (write_sentence (stub_conn []) ks s)]\<rparr>
            \<lparr>rd := (if [] = ([] :: byte list) then [] else [] # [])\<rparr>))"
    using assms(2) by (rule read_sentence_wire)
  then show ?thesis
    using assms(1) by simp
qed

text \<open>
  C4. The sentence \<open>/interface/ovpn-client/set\<close> with the attributes \<open>=.id\<close> = \<open>*1\<close> and
  \<open>=connect-to\<close> = \<open>203.0.113.9\<close>, written by \<open>write_sentence\<close> in any order the \<open>range\<close>
  loop can take and read back by \<open>read_sentence\<close>, is the same sentence: the same
  command and the same attribute map.
\<close>

theorem sentence_round_trip:
  assumes "range_order (Attributes (set_openvpn_ip_query ''*1'' ''203.0.113.9'')) ks"
  shows "read_sentence
           (c\<lparr>rd := [wr (write_sentence (stub_conn []) ks (set_openvpn_ip_query ''*1'' ''203.0.113.9''))]\<rparr>)
         = Inr (set_openvpn_ip_query ''*1'' ''203.0.113.9'', c\<lparr>rd := []\<rparr>)"
proof -
  let ?s = "set_openvpn_ip_query ''*1'' ''203.0.113.9''"
  have "distinct ks" and "set ks = {''=.id'', ''=connect-to''}"
    using assms by (auto simp add: range_order_def set_openvpn_ip_query_def)
  then have "ks = [''=.id'', ''=connect-to''] \<or> ks = [''=connect-to'', ''=.id'']"
    by (rule two_orders) simp
  then show ?thesis
  proof
    assume ks: "ks = [''=.id'', ''=connect-to'']"
    have "parse_sentence (Command ?s # map (\<lambda>k. k @ ''='' @ attr (Attributes ?s) k) ks) = Inr ?s"
      using parse_set_1 by (simp add: ks set_openvpn_ip_query_def attr_def)
    moreover have "\<forall>w\<in>set (Command ?s # map (\<lambda>k. k @ ''='' @ attr (Attributes ?s) k) ks).
           w \<noteq> [] \<and> length w \<le> 0xFFFFFFFF"
      by (simp add: ks set_openvpn_ip_query_def attr_def)
    ultimately show ?thesis by (rule round_trip_words)
  next
    assume ks: "ks = [''=connect-to'', ''=.id'']"
    have "parse_sentence (Command ?s # map (\<lambda>k. k @ ''='' @ attr (Attributes ?s) k) ks) = Inr ?s"
      using parse_set_2 by (simp add: ks set_openvpn_ip_query_def attr_def)
    moreover have "\<forall>w\<in>set (Command ?s # map (\<lambda>k. k @ ''='' @ attr (Attributes ?s) k) ks).
           w \<noteq> [] \<and> length w \<le> 0xFFFFFFFF"
      by (simp add: ks set_openvpn_ip_query_def attr_def)
    ultimately show ?thesis by (rule round_trip_words)
  qed
qed

theorem sentence_round_trip_witness:
  "range_order (Attributes (set_openvpn_ip_query ''*1'' ''203.0.113.9'')) [''=connect-to'', ''=.id'']
   \<and> read_sentence
        (stub_conn [wr (write_sentence (stub_conn []) [''=connect-to'', ''=.id'']
                          (set_openvpn_ip_query ''*1'' ''203.0.113.9''))])
      = Inr (set_openvpn_ip_query ''*1'' ''203.0.113.9'', stub_conn [])
   \<and> wr (write_sentence (stub_conn []) [''=connect-to'', ''=.id'']
                          (set_openvpn_ip_query ''*1'' ''203.0.113.9''))
      = wire_sentence [''/interface/ovpn-client/set'', ''=connect-to=203.0.113.9'', ''=.id=*1'']"
proof -
  have h: "range_order (Attributes (set_openvpn_ip_query ''*1'' ''203.0.113.9'')) [''=connect-to'', ''=.id'']"
    by (auto simp add: range_order_def set_openvpn_ip_query_def)
  have w: "wr (write_sentence (stub_conn []) [''=connect-to'', ''=.id'']
                          (set_openvpn_ip_query ''*1'' ''203.0.113.9''))
      = wire_sentence [''/interface/ovpn-client/set'', ''=connect-to=203.0.113.9'', ''=.id=*1'']"
    by (simp add: write_sentence_ok stub_conn_def set_openvpn_ip_query_def attr_def)
  have "read_sentence
        ((stub_conn [])\<lparr>rd := [wr (write_sentence (stub_conn []) [''=connect-to'', ''=.id'']
                          (set_openvpn_ip_query ''*1'' ''203.0.113.9''))]\<rparr>)
      = Inr (set_openvpn_ip_query ''*1'' ''203.0.113.9'', (stub_conn [])\<lparr>rd := []\<rparr>)"
    using h by (rule sentence_round_trip)
  then have "read_sentence
        (stub_conn [wr (write_sentence (stub_conn []) [''=connect-to'', ''=.id'']
                          (set_openvpn_ip_query ''*1'' ''203.0.113.9''))])
      = Inr (set_openvpn_ip_query ''*1'' ''203.0.113.9'', stub_conn [])"
    by (simp add: stub_conn_def)
  then show ?thesis using h w by simp
qed

section \<open>Login response\<close>

lemma hex_lower_example: "hex_lower [0x00, 0x1f, 0xab, 0xff] = ''001fabff''"
  by (simp add: hex_lower_def hex_digit_def)


section \<open>Short reads\<close>

lemma wire_word_done: "wire_word ''!done'' = (5 # bytes_of ''!do'') @ bytes_of ''ne''"
  by (simp add: wire_word_def write_length_ba_def bytes_of_def word_sless_alt)

lemma char_of_zero: "char_of (0 :: nat) = CHR 0x00"
  by (simp add: char_of_def)

text \<open>
  C7. \<open>read_word\<close> calls \<open>Read\<close> once. When the length byte and the first three bytes of
  the word \<open>!done\<close> arrive in one segment and the last two bytes in the next, the word
  returned is \<open>!do\<close> followed by two zero bytes, and the bytes \<open>ne\<close> stay in the stream; with
  all of them in one segment the word is \<open>!done\<close>.
\<close>

theorem read_word_short_read:
  "wire_word ''!done'' = (5 # bytes_of ''!do'') @ bytes_of ''ne''
   \<and> read_word (stub_conn [(5 # bytes_of ''!do'') @ bytes_of ''ne'']) = (''!done'', stub_conn [])
   \<and> read_word (stub_conn [5 # bytes_of ''!do'', bytes_of ''ne''])
       = ([CHR ''!'', CHR ''d'', CHR ''o'', CHR 0x00, CHR 0x00], stub_conn [bytes_of ''ne''])"
proof -
  have a: "wire_word ''!done'' = (5 # bytes_of ''!do'') @ bytes_of ''ne''"
    by (rule wire_word_done)
  have "rd (stub_conn [wire_word ''!done'']) = (wire_word ''!done'' @ []) # []"
    by (simp add: stub_conn_def)
  then have "read_word (stub_conn [wire_word ''!done''])
      = (''!done'', (stub_conn [wire_word ''!done''])\<lparr>rd := (if [] = ([] :: byte list) then [] else [] # [])\<rparr>)"
    by (rule read_word_rd) simp
  then have b: "read_word (stub_conn [(5 # bytes_of ''!do'') @ bytes_of ''ne'']) = (''!done'', stub_conn [])"
    by (simp add: a stub_conn_def)
  have l: "read_length (stub_conn [5 # bytes_of ''!do'', bytes_of ''ne''])
      = (5, stub_conn [bytes_of ''!do'', bytes_of ''ne''])"
    by (simp add: read_length_def read_byte_def conn_Read_def stub_conn_def bytes_of_def)
  have u: "unat (5 :: int64) = 5" by simp
  have r: "conn_Read (stub_conn [bytes_of ''!do'', bytes_of ''ne'']) 5
      = (bytes_of ''!do'', False, stub_conn [bytes_of ''ne''])"
    by (simp add: conn_Read_def stub_conn_def bytes_of_def)
  have "string_of (bytes_of ''!do'' @ replicate (5 - length (bytes_of ''!do'')) 0)
      = string_of (bytes_of ''!do'') @ [char_of (0 :: nat), char_of (0 :: nat)]"
    by (simp add: string_of_def bytes_of_def numeral_2_eq_2)
  then have s: "string_of (bytes_of ''!do'' @ replicate (5 - length (bytes_of ''!do'')) 0)
      = [CHR ''!'', CHR ''d'', CHR ''o'', CHR 0x00, CHR 0x00]"
    by (simp only: string_of_bytes_of char_of_zero) simp
  have c: "read_word (stub_conn [5 # bytes_of ''!do'', bytes_of ''ne''])
       = ([CHR ''!'', CHR ''d'', CHR ''o'', CHR 0x00, CHR 0x00], stub_conn [bytes_of ''ne''])"
    unfolding read_word_def by (simp only: l prod.case u r s)
  show ?thesis using a b c by simp
qed

end
